theory Spec2Isabelle
  imports Main
begin

section \<open>Strings (package strings of the Go library)\<close>

text \<open>
  A Go string is a sequence of bytes; it is modelled as a \<^typ>\<open>string\<close>, a list of
  8-bit characters. Lengths and indices count bytes, as \<open>len\<close> and slicing do in Go.
\<close>

definition strings_HasPrefix :: "string \<Rightarrow> string \<Rightarrow> bool" where
  "strings_HasPrefix s p = (length p \<le> length s \<and> take (length p) s = p)"

definition strings_HasSuffix :: "string \<Rightarrow> string \<Rightarrow> bool" where
  "strings_HasSuffix s p =
     (length p \<le> length s \<and> drop (length s - length p) s = p)"

definition strings_TrimPrefix :: "string \<Rightarrow> string \<Rightarrow> string" where
  "strings_TrimPrefix s p = (if strings_HasPrefix s p then drop (length p) s else s)"

text \<open>
  \<open>utf8.DecodeRuneInString\<close>, the width only: the number of bytes of the first rune,
  1 for a byte that starts no valid encoding, 0 for the empty string.
\<close>

definition utf8_cont :: "char \<Rightarrow> nat \<Rightarrow> nat \<Rightarrow> bool" where
  "utf8_cont c lo hi = (lo \<le> (of_char c :: nat) \<and> (of_char c :: nat) \<le> hi)"

fun utf8_width :: "string \<Rightarrow> nat" where
  "utf8_width [] = 0"
| "utf8_width (c # cs) =
     (let b = (of_char c :: nat) in
      if b < 0x80 then 1
      else if 0xC2 \<le> b \<and> b \<le> 0xDF then
        (case cs of c1 # _ \<Rightarrow> if utf8_cont c1 0x80 0xBF then 2 else 1 | _ \<Rightarrow> 1)
      else if 0xE0 \<le> b \<and> b \<le> 0xEF then
        (case cs of
           c1 # c2 # _ \<Rightarrow>
             if utf8_cont c1 (if b = 0xE0 then 0xA0 else 0x80) (if b = 0xED then 0x9F else 0xBF)
                \<and> utf8_cont c2 0x80 0xBF
             then 3 else 1
         | _ \<Rightarrow> 1)
      else if 0xF0 \<le> b \<and> b \<le> 0xF4 then
        (case cs of
           c1 # c2 # c3 # _ \<Rightarrow>
             if utf8_cont c1 (if b = 0xF0 then 0x90 else 0x80) (if b = 0xF4 then 0x8F else 0xBF)
                \<and> utf8_cont c2 0x80 0xBF \<and> utf8_cont c3 0x80 0xBF
             then 4 else 1
         | _ \<Rightarrow> 1)
      else 1)"

lemma utf8_width_pos: "0 < utf8_width (c # cs)"
  by (simp add: Let_def split: list.splits)

text \<open>
  \<open>strings.ReplaceAll(s, old, new)\<close>: the occurrences of \<open>old\<close> are found from left to
  right and do not overlap; the text that replaces one is not searched again. With an empty
  \<open>old\<close> the library puts \<open>new\<close> before every rune and at the end.
\<close>

function replaceEmpty :: "string \<Rightarrow> string \<Rightarrow> string" where
  "replaceEmpty s new =
     (if s = [] then []
      else take (utf8_width s) s @ new @ replaceEmpty (drop (utf8_width s) s) new)"
  by pat_completeness auto
termination
proof (relation "measure (\<lambda>(s, new). length s)")
  show "wf (measure (\<lambda>(s, new). length s))" by simp
next
  fix s new :: string
  assume "s \<noteq> []"
  then obtain c cs where "s = c # cs" by (cases s) auto
  then have "0 < utf8_width s" using utf8_width_pos by simp
  with \<open>s \<noteq> []\<close> show "((drop (utf8_width s) s, new), (s, new)) \<in> measure (\<lambda>(s, new). length s)"
    by simp
qed

declare replaceEmpty.simps [simp del]

function replaceFrom :: "string \<Rightarrow> string \<Rightarrow> string \<Rightarrow> string" where
  "replaceFrom s old new =
     (if s = [] \<or> old = [] then s
      else if strings_HasPrefix s old then new @ replaceFrom (drop (length old) s) old new
      else hd s # replaceFrom (tl s) old new)"
  by pat_completeness auto
termination
  by (relation "measure (\<lambda>(s, old, new). length s)") auto

declare replaceFrom.simps [simp del]

definition strings_ReplaceAll :: "string \<Rightarrow> string \<Rightarrow> string \<Rightarrow> string" where
  "strings_ReplaceAll s old new =
     (if old = new then s
      else if old = [] then new @ replaceEmpty s new
      else replaceFrom s old new)"

text \<open>
  \<open>strings.Index\<close> and \<open>strings.LastIndex\<close> give the byte offset of the first and of the
  last occurrence, \<open>-1\<close> when there is none.
\<close>

fun strings_Index :: "string \<Rightarrow> string \<Rightarrow> int" where
  "strings_Index [] substr = (if substr = [] then 0 else - 1)"
| "strings_Index (c # cs) substr =
     (if strings_HasPrefix (c # cs) substr then 0
      else let i = strings_Index cs substr in if i = - 1 then - 1 else i + 1)"

fun strings_LastIndex :: "string \<Rightarrow> string \<Rightarrow> int" where
  "strings_LastIndex [] substr = (if substr = [] then 0 else - 1)"
| "strings_LastIndex (c # cs) substr =
     (let i = strings_LastIndex cs substr in
      if i \<noteq> - 1 then i + 1
      else if strings_HasPrefix (c # cs) substr then 0
      else - 1)"

definition strings_Contains :: "string \<Rightarrow> string \<Rightarrow> bool" where
  "strings_Contains s substr = (0 \<le> strings_Index s substr)"

text \<open>
  \<open>strings.ToLower\<close>: a string of ASCII bytes only has its letters \<open>A\<close> to \<open>Z\<close> mapped
  to lower case. Any other string goes through \<open>strings.Map(unicode.ToLower, s)\<close>, which
  works rune by rune with the case tables of the Unicode library; these tables are not part
  of the program, so that mapping is a parameter \<open>U\<close> of every function that lowers a
  string. It may change the length of the string.
\<close>

definition asciiLower :: "char \<Rightarrow> char" where
  "asciiLower c =
     (if 0x41 \<le> (of_char c :: nat) \<and> (of_char c :: nat) \<le> 0x5A
      then char_of ((of_char c :: nat) + 0x20) else c)"

definition strings_ToLower :: "(string \<Rightarrow> string) \<Rightarrow> string \<Rightarrow> string" where
  "strings_ToLower U s =
     (if list_all (\<lambda>c. (of_char c :: nat) < 0x80) s then map asciiLower s else U s)"

text \<open>
  A slice expression \<open>s[lo:hi]\<close> panics at run time unless \<open>0 \<le> lo \<le> hi \<le> len(s)\<close>.
\<close>

datatype panic = SliceBoundsOutOfRange

definition slice :: "string \<Rightarrow> int \<Rightarrow> int \<Rightarrow> panic + string" where
  "slice s lo hi =
     (if 0 \<le> lo \<and> lo \<le> hi \<and> hi \<le> int (length s)
      then Inr (take (nat (hi - lo)) (drop (nat lo) s))
      else Inl SliceBoundsOutOfRange)"

section \<open>Percent-decoding (package net/url)\<close>

text \<open>
  \<open>url.QueryUnescape\<close> is \<open>unescape\<close> in the mode of a query component: every \<open>%\<close> must
  be followed by two hexadecimal digits, otherwise the call fails with an escape error
  (\<open>None\<close> here); \<open>%XY\<close> becomes the byte \<open>XY\<close> and, in this mode, every \<open>+\<close> becomes a
  space. The library checks the string in a first loop and builds the result in a second
  one; both walk over the same positions and are one recursion here.
\<close>

definition ishex :: "char \<Rightarrow> bool" where
  "ishex c =
     (let n = (of_char c :: nat) in
      0x30 \<le> n \<and> n \<le> 0x39 \<or> 0x61 \<le> n \<and> n \<le> 0x66 \<or> 0x41 \<le> n \<and> n \<le> 0x46)"

definition unhex :: "char \<Rightarrow> nat" where
  "unhex c =
     (let n = (of_char c :: nat) in
      if 0x30 \<le> n \<and> n \<le> 0x39 then n - 0x30
      else if 0x61 \<le> n \<and> n \<le> 0x66 then n - 0x61 + 10
      else if 0x41 \<le> n \<and> n \<le> 0x46 then n - 0x41 + 10
      else 0)"

fun url_QueryUnescape :: "string \<Rightarrow> string option" where
  "url_QueryUnescape [] = Some []"
| "url_QueryUnescape (c # cs) =
     (if c = CHR ''%'' then
        (case cs of
           h1 # h2 # rest \<Rightarrow>
             if ishex h1 \<and> ishex h2
             then map_option ((#) (char_of (unhex h1 * 16 + unhex h2))) (url_QueryUnescape rest)
             else None
         | _ \<Rightarrow> None)
      else if c = CHR ''+'' then map_option ((#) CHR '' '') (url_QueryUnescape cs)
      else map_option ((#) c) (url_QueryUnescape cs))"

section \<open>Base64 (package encoding/base64)\<close>

text \<open>
  \<open>base64.StdEncoding.EncodeToString\<close>: three bytes make a 24-bit value that is written as
  four characters of the standard alphabet; one or two remaining bytes are written as two
  or three characters and padded with \<open>=\<close> to four.
\<close>

definition encodeStd :: string where
  "encodeStd = ''ABCDEFGHIJKLMNOPQRSTUVWXYZabcdefghijklmnopqrstuvwxyz0123456789+/''"

fun base64_EncodeToString :: "string \<Rightarrow> string" where
  "base64_EncodeToString [] = []"
| "base64_EncodeToString [a] =
     (let val = (of_char a :: int) * 65536 in
      [encodeStd ! nat (val div 262144 mod 64), encodeStd ! nat (val div 4096 mod 64),
       CHR ''='', CHR ''=''])"
| "base64_EncodeToString [a, b] =
     (let val = (of_char a :: int) * 65536 + (of_char b :: int) * 256 in
      [encodeStd ! nat (val div 262144 mod 64), encodeStd ! nat (val div 4096 mod 64),
       encodeStd ! nat (val div 64 mod 64), CHR ''=''])"
| "base64_EncodeToString (a # b # c # rest) =
     (let val = (of_char a :: int) * 65536 + (of_char b :: int) * 256 + (of_char c :: int) in
      [encodeStd ! nat (val div 262144 mod 64), encodeStd ! nat (val div 4096 mod 64),
       encodeStd ! nat (val div 64 mod 64), encodeStd ! nat (val mod 64)]
      @ base64_EncodeToString rest)"

text \<open>
  The decoder the round-trip property is stated with: standard base64 (RFC 4648) with
  padding. It is not code of the program; it reads groups of four characters, the last one
  possibly padded, and fails on anything else.
\<close>

definition decodeStd :: "char \<Rightarrow> int option" where
  "decodeStd c = map_of (zip encodeStd [0..63]) c"

fun base64_decode :: "string \<Rightarrow> string option" where
  "base64_decode [] = Some []"
| "base64_decode (c1 # c2 # c3 # c4 # rest) =
     (case (decodeStd c1, decodeStd c2) of
        (Some d1, Some d2) \<Rightarrow>
          if c3 = CHR ''='' then
            (if c4 = CHR ''='' \<and> rest = [] then Some [char_of ((d1 * 64 + d2) div 16)] else None)
          else
            (case decodeStd c3 of
               None \<Rightarrow> None
             | Some d3 \<Rightarrow>
                 if c4 = CHR ''='' then
                   (if rest = []
                    then Some [char_of (((d1 * 64 + d2) * 64 + d3) div 1024),
                               char_of (((d1 * 64 + d2) * 64 + d3) div 4)]
                    else None)
                 else
                   (case decodeStd c4 of
                      None \<Rightarrow> None
                    | Some d4 \<Rightarrow>
                        map_option
                          ((@) [char_of ((((d1 * 64 + d2) * 64 + d3) * 64 + d4) div 65536),
                                char_of ((((d1 * 64 + d2) * 64 + d3) * 64 + d4) div 256),
                                char_of ((((d1 * 64 + d2) * 64 + d3) * 64 + d4))])
                          (base64_decode rest)))
      | _ \<Rightarrow> None)"
| "base64_decode _ = None"

section \<open>Regular expressions (package regexp)\<close>

text \<open>
  The three patterns of the rewriter are sequences of literal runes, character classes
  under \<open>*\<close>, \<open>+\<close> or \<open>?\<close>, and four capture groups that follow one another and cover the whole
  match. The patterns are compiled with the flag \<open>(?i)\<close>. The model has one item for each
  of these forms; \<open>Cap\<close> marks the end of a capture group.

  The library works on runes. A character class is given by the ASCII bytes it accepts and
  by whether it accepts a rune outside ASCII (a negated class does; so does it accept a byte
  that is no valid UTF-8, which is read as the rune U+FFFD of width 1).
\<close>

datatype cls = Cls (ascii: "char \<Rightarrow> bool") (other: bool)

datatype item = Rune char | One cls | Opt cls | Star cls | Plus cls | Cap

definition clsWidth :: "cls \<Rightarrow> string \<Rightarrow> nat option" where
  "clsWidth k s =
     (case s of
        [] \<Rightarrow> None
      | c # _ \<Rightarrow>
          if (of_char c :: nat) < 0x80 then (if ascii k c then Some 1 else None)
          else if other k then Some (utf8_width s) else None)"

text \<open>
  A literal rune under \<open>(?i)\<close> matches every rune of its orbit under
  \<open>unicode.SimpleFold\<close>: a letter matches its lower and upper case; beyond that \<open>s\<close> matches
  U+017F (long s, bytes C5 BF) and \<open>k\<close> matches U+212A (Kelvin sign, bytes E2 84 AA). The
  literals of the patterns are lower-case letters and punctuation.
\<close>

definition foldOrbit :: "char \<Rightarrow> string list" where
  "foldOrbit c =
     (if 0x61 \<le> (of_char c :: nat) \<and> (of_char c :: nat) \<le> 0x7A
      then [[c], [char_of ((of_char c :: nat) - 0x20)]]
           @ (if c = CHR ''s'' then [[CHR 0xC5, CHR 0xBF]]
              else if c = CHR ''k'' then [[CHR 0xE2, CHR 0x84, CHR 0xAA]]
              else [])
      else [[c]])"

definition runeWidth :: "char \<Rightarrow> string \<Rightarrow> nat option" where
  "runeWidth c s = map_option length (find (strings_HasPrefix s) (foldOrbit c))"

lemma clsWidth_pos: "clsWidth k s = Some w \<Longrightarrow> 0 < w \<and> s \<noteq> []"
  by (cases s) (auto simp: clsWidth_def utf8_width_pos simp del: utf8_width.simps split: if_splits)

lemma clsWidth_shorter: "clsWidth k s = Some w \<Longrightarrow> length s - w < length s"
  using clsWidth_pos [of k s w] by (cases s) auto

text \<open>
  \<open>matchHere items s n\<close> matches the items at the beginning of \<open>s\<close>, having consumed \<open>n\<close>
  bytes of the match so far. It gives the offsets at which the capture groups end and the
  offset at which the match ends, both counted from the start of the match. The choice among
  several matches is the library's: \<open>*\<close>, \<open>+\<close> and \<open>?\<close> prefer to consume, and the first
  alternative that lets the rest of the pattern match is taken (leftmost-first).
\<close>

function matchHere :: "item list \<Rightarrow> string \<Rightarrow> nat \<Rightarrow> (nat list \<times> nat) option" where
  "matchHere [] s n = Some ([], n)"
| "matchHere (Cap # r) s n =
     (case matchHere r s n of None \<Rightarrow> None | Some (caps, e) \<Rightarrow> Some (n # caps, e))"
| "matchHere (Rune c # r) s n =
     (case runeWidth c s of None \<Rightarrow> None | Some w \<Rightarrow> matchHere r (drop w s) (n + w))"
| "matchHere (One k # r) s n =
     (case clsWidth k s of None \<Rightarrow> None | Some w \<Rightarrow> matchHere r (drop w s) (n + w))"
| "matchHere (Opt k # r) s n =
     (case clsWidth k s of
        None \<Rightarrow> matchHere r s n
      | Some w \<Rightarrow>
          (case matchHere r (drop w s) (n + w) of
             Some m \<Rightarrow> Some m
           | None \<Rightarrow> matchHere r s n))"
| "matchHere (Star k # r) s n =
     (case clsWidth k s of
        None \<Rightarrow> matchHere r s n
      | Some w \<Rightarrow>
          (case matchHere (Star k # r) (drop w s) (n + w) of
             Some m \<Rightarrow> Some m
           | None \<Rightarrow> matchHere r s n))"
| "matchHere (Plus k # r) s n =
     (case clsWidth k s of None \<Rightarrow> None | Some w \<Rightarrow> matchHere (Star k # r) (drop w s) (n + w))"
  by pat_completeness auto
termination
  by (relation "measures [\<lambda>(r, s, n). length s, \<lambda>(r, s, n). length r]")
     (auto dest: clsWidth_shorter)

declare matchHere.simps [simp del]

text \<open>
  The leftmost match: the first position, going from rune to rune, at which the items
  match. The result is the start of the match, the ends of the capture groups and the end
  of the match, as offsets into \<open>s\<close>.
\<close>

function re_find :: "item list \<Rightarrow> string \<Rightarrow> nat \<Rightarrow> (nat \<times> nat list \<times> nat) option" where
  "re_find re s pos =
     (case matchHere re s 0 of
        Some (caps, e) \<Rightarrow> Some (pos, map ((+) pos) caps, pos + e)
      | None \<Rightarrow>
          if s = [] then None
          else re_find re (drop (utf8_width s) s) (pos + utf8_width s))"
  by pat_completeness auto
termination
proof (relation "measure (\<lambda>(re, s, pos). length s)", goal_cases)
  case 1
  show ?case by simp
next
  case (2 re s pos)
  then obtain c cs where "s = c # cs" by (cases s) auto
  then have "0 < utf8_width s" using utf8_width_pos by simp
  with 2 show ?case by simp
qed

declare re_find.simps [simp del]

lemma re_find_bounds: "re_find re s pos = Some (a0, caps, a1) \<Longrightarrow> pos \<le> a0 \<and> a0 \<le> a1"
proof (induction re s pos rule: re_find.induct)
  case (1 re s pos)
  show ?case
  proof (cases "matchHere re s 0")
    case None
    with "1.prems" have "s \<noteq> []" and "re_find re (drop (utf8_width s) s) (pos + utf8_width s) = Some (a0, caps, a1)"
      by (auto simp: re_find.simps [of re s pos] split: if_splits)
    with "1.IH" None show ?thesis by simp
  next
    case (Some m)
    with "1.prems" show ?thesis
      by (auto simp: re_find.simps [of re s pos] split: prod.splits)
  qed
qed

text \<open>
  \<open>FindStringSubmatch\<close> gives the text of the leftmost match followed by the texts of the
  capture groups, and \<open>nil\<close> (the empty list) when there is no match. The groups of the
  patterns follow one another from the start of the match.
\<close>

fun groupTexts :: "string \<Rightarrow> nat \<Rightarrow> nat list \<Rightarrow> string list" where
  "groupTexts s b [] = []"
| "groupTexts s b (e # es) = take (e - b) (drop b s) # groupTexts s e es"

definition FindStringSubmatch :: "item list \<Rightarrow> string \<Rightarrow> string list" where
  "FindStringSubmatch re s =
     (case re_find re s 0 of
        None \<Rightarrow> []
      | Some (a0, caps, a1) \<Rightarrow> take (a1 - a0) (drop a0 s) # groupTexts s a0 caps)"

text \<open>
  \<open>ReplaceAllStringFunc\<close> is the loop of \<open>replaceAll\<close> in the library: it looks for the next
  match from \<open>searchPos\<close> on, copies the text since the end of the last match, appends the
  replacement (but not for an empty match right after another match) and goes on behind
  the match, at least one rune further.
\<close>

function replaceAll_loop ::
  "item list \<Rightarrow> string \<Rightarrow> (string \<Rightarrow> string) \<Rightarrow> nat \<Rightarrow> nat \<Rightarrow> string \<Rightarrow> string" where
  "replaceAll_loop re src repl lastMatchEnd searchPos buf =
     (if searchPos \<le> length src then
        (case re_find re (drop searchPos src) searchPos of
           None \<Rightarrow> buf @ drop lastMatchEnd src
         | Some (a0, caps, a1) \<Rightarrow>
             replaceAll_loop re src repl a1
               (let width = utf8_width (drop searchPos src) in
                if a1 < searchPos + width then searchPos + width
                else if a1 < searchPos + 1 then searchPos + 1
                else a1)
               ((buf @ take (a0 - lastMatchEnd) (drop lastMatchEnd src))
                @ (if lastMatchEnd < a1 \<or> a0 = 0 then repl (take (a1 - a0) (drop a0 src)) else [])))
      else buf @ drop lastMatchEnd src)"
  by pat_completeness auto
termination
proof (relation "measure (\<lambda>(re, src, repl, lastMatchEnd, searchPos, buf). Suc (length src) - searchPos)",
    goal_cases)
  case 1
  show ?case by simp
next
  case (2 re src repl lastMatchEnd searchPos buf m a0 rest caps a1)
  then have "searchPos \<le> a1" using re_find_bounds [of re "drop searchPos src" searchPos a0 caps a1]
    by simp
  with 2 show ?case by (auto simp: Let_def)
qed

declare replaceAll_loop.simps [simp del]

definition ReplaceAllStringFunc :: "item list \<Rightarrow> string \<Rightarrow> (string \<Rightarrow> string) \<Rightarrow> string" where
  "ReplaceAllStringFunc re src repl = replaceAll_loop re src repl 0 0 []"

section \<open>Paths (package path of the Go library)\<close>

text \<open>
  \<open>path.Clean\<close> reads the path from left to right and writes into a buffer \<open>out\<close>;
  \<open>dotdot\<close> is the length of the part of the buffer that a \<open>..\<close> element may not
  remove (the leading slash of a rooted path, or the \<open>..\<close> elements already written).
  \<open>lazybuf_backtrack\<close> is the inner loop of the \<open>..\<close> case: it drops the last byte,
  then goes on dropping while the buffer is longer than \<open>dotdot\<close> and the byte just dropped
  is not a slash.
\<close>

function lazybuf_backtrack :: "nat \<Rightarrow> string \<Rightarrow> string" where
  "lazybuf_backtrack dotdot out =
     (if out = [] then []
      else if dotdot < length (butlast out) \<and> last out \<noteq> CHR ''/''
        then lazybuf_backtrack dotdot (butlast out)
      else butlast out)"
  by pat_completeness auto
termination
  by (relation "measure (\<lambda>(dotdot, out). length out)") auto

declare lazybuf_backtrack.simps [simp del]

function clean_loop :: "bool \<Rightarrow> string \<Rightarrow> nat \<Rightarrow> string \<Rightarrow> string" where
  "clean_loop rooted out dotdot [] = out"
| "clean_loop rooted out dotdot (c # rest) =
     (if c = CHR ''/'' then clean_loop rooted out dotdot rest
      else if c = CHR ''.'' \<and> (rest = [] \<or> hd rest = CHR ''/'')
        then clean_loop rooted out dotdot rest
      else if c = CHR ''.'' \<and> rest \<noteq> [] \<and> hd rest = CHR ''.''
              \<and> (tl rest = [] \<or> hd (tl rest) = CHR ''/'')
        then (if dotdot < length out
                then clean_loop rooted (lazybuf_backtrack dotdot out) dotdot (tl rest)
              else if \<not> rooted
                then clean_loop rooted
                       ((if 0 < length out then out @ ''/'' else out) @ ''..'')
                       (length ((if 0 < length out then out @ ''/'' else out) @ ''..''))
                       (tl rest)
              else clean_loop rooted out dotdot (tl rest))
      else clean_loop rooted
             ((if rooted \<and> length out \<noteq> 1 \<or> \<not> rooted \<and> length out \<noteq> 0
               then out @ ''/'' else out)
              @ takeWhile (\<lambda>x. x \<noteq> CHR ''/'') (c # rest))
             dotdot
             (dropWhile (\<lambda>x. x \<noteq> CHR ''/'') (c # rest)))"
  by pat_completeness auto
termination
proof (relation "measure (\<lambda>(rooted, out, dotdot, p). length p)", goal_cases)
  case 1
  show ?case by simp
next
  case (2 rooted out dotdot c rest)
  then show ?case by simp
next
  case (3 rooted out dotdot c rest)
  then show ?case by simp
next
  case (4 rooted out dotdot c rest)
  then show ?case by (cases rest) auto
next
  case (5 rooted out dotdot c rest)
  then show ?case by (cases rest) auto
next
  case (6 rooted out dotdot c rest)
  then show ?case by (cases rest) auto
next
  case (7 rooted out dotdot c rest)
  have "length (dropWhile (\<lambda>x. x \<noteq> CHR ''/'') rest) \<le> length rest"
    by (rule length_dropWhile_le)
  with 7 show ?case by simp
qed

declare clean_loop.simps(2) [simp del]

definition path_Clean :: "string \<Rightarrow> string" where
  "path_Clean p =
     (if p = [] then ''.''
      else
        let rooted = (hd p = CHR ''/'');
            out = (if rooted then clean_loop True ''/'' 1 (tl p) else clean_loop False [] 0 p)
        in if out = [] then ''.'' else out)"

text \<open>
  \<open>path.Join(elem...)\<close>: the empty string when every element is empty; otherwise the
  elements from the first non-empty one on, separated by slashes, cleaned.
\<close>

fun join_buf :: "string \<Rightarrow> string list \<Rightarrow> string" where
  "join_buf buf [] = buf"
| "join_buf buf (e # es) =
     (if 0 < length buf \<or> e \<noteq> []
      then join_buf ((if 0 < length buf then buf @ ''/'' else buf) @ e) es
      else join_buf buf es)"

definition path_Join :: "string list \<Rightarrow> string" where
  "path_Join elem =
     (if sum_list (map length elem) = 0 then [] else path_Clean (join_buf [] elem))"

text \<open>\<open>path.Split\<close> cuts after the last slash; \<open>path.Dir\<close> cleans the first part.\<close>

definition path_Split_dir :: "string \<Rightarrow> string" where
  "path_Split_dir p = rev (dropWhile (\<lambda>x. x \<noteq> CHR ''/'') (rev p))"

definition path_Dir :: "string \<Rightarrow> string" where
  "path_Dir p = path_Clean (path_Split_dir p)"

section \<open>Path resolution of the parser\<close>

definition resolvePath :: "string \<Rightarrow> string \<Rightarrow> string" where
  "resolvePath basePath href = (if basePath = [] then href else path_Join [basePath, href])"

function resolveRelativePath :: "string \<Rightarrow> string \<Rightarrow> string" where
  "resolveRelativePath basePath href =
     (if basePath = [] then href
      else if strings_HasPrefix href ''../''
        then resolveRelativePath (path_Dir basePath) (strings_TrimPrefix href ''../'')
      else path_Join [basePath, href])"
  by pat_completeness auto
termination
  by (relation "measure (\<lambda>(basePath, href). length href)")
     (auto simp: strings_HasPrefix_def strings_TrimPrefix_def)

declare resolveRelativePath.simps [simp del]

definition normalizePath :: "string \<Rightarrow> string" where
  "normalizePath p = strings_TrimPrefix (path_Clean p) ''/''"

section \<open>The data model of the parser\<close>

text \<open>
  The structs of the parser. Field names that occur in more than one struct carry the
  struct's name here: \<open>Chapter.Title\<close> is \<open>ChapterTitle\<close>, \<open>Metadata.Title\<close> is
  \<open>MetaTitle\<close>, the media type of a root file is \<open>RootMediaType\<close>. \<open>Order\<close> is a Go
  \<open>int\<close> that only ever holds an index of the spine slice.
\<close>

record Chapter =
  ChapterTitle :: string
  Content :: string
  Order :: nat

record Book =
  Title :: string
  Author :: string
  Chapters :: "Chapter list"
  CSS :: "string list"
  BasePath :: string

record RootFile =
  FullPath :: string
  RootMediaType :: string

record Container =
  RootFiles :: "RootFile list"

record Metadata =
  MetaTitle :: string
  Creator :: string

record ManifestItem =
  ID :: string
  Href :: string
  MediaType :: string

record SpineItemRef =
  IDRef :: string

record Package =
  Metadata :: Metadata
  Manifest :: "ManifestItem list"
  Spine :: "SpineItemRef list"

section \<open>The archive\<close>

text \<open>
  An entry of the archive has a name. Opening it (\<open>f.Open\<close>) fails or gives a reader. A
  reader delivers bytes and then ends, either regularly or with an error: the archive
  reader reports a wrong checksum only at the end of an entry, after all its bytes, and
  damaged compressed data ends the bytes early. \<open>io.ReadAll\<close> gives the bytes of a reader
  that ends regularly and an error otherwise.

  The parser looks entries up in a map from names to entries, filled in the order of the
  archive's directory, so that of two entries with one name the later one is found.
\<close>

datatype reader = Reader (delivered: string) (endsWithError: bool)

record zip_File =
  Name :: string
  Open :: "reader option"

definition io_ReadAll :: "reader \<Rightarrow> string option" where
  "io_ReadAll rc = (if endsWithError rc then None else Some (delivered rc))"

definition fileMap :: "zip_File list \<Rightarrow> (string \<rightharpoonup> zip_File)" where
  "fileMap fs = foldl (\<lambda>files f. files(Name f \<mapsto> f)) Map.empty fs"

definition readFileContent :: "zip_File \<Rightarrow> string option" where
  "readFileContent f = (case Open f of None \<Rightarrow> None | Some rc \<Rightarrow> io_ReadAll rc)"

definition readBinaryContent :: "zip_File \<Rightarrow> string option" where
  "readBinaryContent f = (case Open f of None \<Rightarrow> None | Some rc \<Rightarrow> io_ReadAll rc)"

section \<open>The asset inliner\<close>

definition isImageFile :: "(string \<Rightarrow> string) \<Rightarrow> string \<Rightarrow> bool" where
  "isImageFile U src =
     (let lower = strings_ToLower U src in
      list_ex (strings_HasSuffix lower)
        [''.jpg'', ''.jpeg'', ''.png'', ''.gif'', ''.svg'', ''.webp'', ''.bmp'', ''.ico''])"

definition getMimeType :: "(string \<Rightarrow> string) \<Rightarrow> string \<Rightarrow> string" where
  "getMimeType U filename =
     (let lower = strings_ToLower U filename in
      if strings_HasSuffix lower ''.jpg'' \<or> strings_HasSuffix lower ''.jpeg'' then ''image/jpeg''
      else if strings_HasSuffix lower ''.png'' then ''image/png''
      else if strings_HasSuffix lower ''.gif'' then ''image/gif''
      else if strings_HasSuffix lower ''.svg'' then ''image/svg+xml''
      else if strings_HasSuffix lower ''.webp'' then ''image/webp''
      else if strings_HasSuffix lower ''.bmp'' then ''image/bmp''
      else if strings_HasSuffix lower ''.ico'' then ''image/x-icon''
      else [])"

text \<open>
  The steps of \<open>resolveAndEmbed\<close>, in the order of its body: the references that are
  skipped; the reference without its fragment; the percent-decoded reference, which stays
  as it is when decoding fails; the three lookups; the data URI of the entry found.
\<close>

definition skipped :: "string \<Rightarrow> bool" where
  "skipped src =
     (strings_HasPrefix src ''data:'' \<or> strings_HasPrefix src ''http://''
      \<or> strings_HasPrefix src ''https://'')"

definition stripFragment :: "string \<Rightarrow> string" where
  "stripFragment src =
     (let idx = strings_Index src ''#'' in if idx \<noteq> - 1 then take (nat idx) src else src)"

definition cleanSrc :: "string \<Rightarrow> string" where
  "cleanSrc src =
     (case url_QueryUnescape (stripFragment src) of
        Some decodedSrc \<Rightarrow> decodedSrc
      | None \<Rightarrow> stripFragment src)"

definition findFile :: "(string \<rightharpoonup> zip_File) \<Rightarrow> string \<Rightarrow> string \<Rightarrow> zip_File option" where
  "findFile files imagePath cleaned =
     (case files imagePath of
        Some zipFile \<Rightarrow> Some zipFile
      | None \<Rightarrow>
          (case files cleaned of
             Some zipFile \<Rightarrow> Some zipFile
           | None \<Rightarrow> files (normalizePath imagePath)))"

definition dataURI :: "(string \<Rightarrow> string) \<Rightarrow> string \<Rightarrow> zip_File \<Rightarrow> string" where
  "dataURI U cleaned zipFile =
     (case readBinaryContent zipFile of
        None \<Rightarrow> []
      | Some bytes \<Rightarrow>
          let mimeType = getMimeType U cleaned in
          if mimeType = [] then []
          else ''data:'' @ mimeType @ '';base64,'' @ base64_EncodeToString bytes)"

definition resolveAndEmbed ::
  "(string \<Rightarrow> string) \<Rightarrow> string \<Rightarrow> string \<Rightarrow> (string \<rightharpoonup> zip_File) \<Rightarrow> string" where
  "resolveAndEmbed U src basePath files =
     (if skipped src then []
      else
        let cleaned = cleanSrc src;
            imagePath = resolveRelativePath basePath cleaned
        in case findFile files imagePath cleaned of
             None \<Rightarrow> []
           | Some zipFile \<Rightarrow> dataURI U cleaned zipFile)"

section \<open>The markup rewriter\<close>

definition space :: cls where
  "space = Cls (\<lambda>c. c \<in> set [CHR 0x09, CHR 0x0A, CHR 0x0C, CHR 0x0D, CHR '' '']) False"

definition quote :: cls where
  "quote = Cls (\<lambda>c. c = CHR 0x22 \<or> c = CHR 0x27) False"

definition notGt :: cls where
  "notGt = Cls (\<lambda>c. c \<noteq> CHR ''>'') True"

definition notQuote :: cls where
  "notQuote = Cls (\<lambda>c. c \<noteq> CHR 0x22 \<and> c \<noteq> CHR 0x27) True"

definition notQuoteParen :: cls where
  "notQuoteParen = Cls (\<lambda>c. c \<noteq> CHR 0x22 \<and> c \<noteq> CHR 0x27 \<and> c \<noteq> CHR '')'') True"

text \<open>
  \<open>(?i)(<img[^>]*\ssrc\s*=\s*)(["'])([^"']+)(["'])\<close>,
  \<open>(?i)(xlink:href\s*=\s*)(["'])([^"']+)(["'])\<close> and
  \<open>(?i)(url\s*\(\s*)(["']?)([^"')]+)(["']?\s*\))\<close>.
\<close>

definition imgSrcRegex :: "item list" where
  "imgSrcRegex =
     map Rune ''<img'' @ [Star notGt, One space] @ map Rune ''src''
       @ [Star space, Rune CHR ''='', Star space, Cap,
          One quote, Cap, Plus notQuote, Cap, One quote, Cap]"

definition xlinkRegex :: "item list" where
  "xlinkRegex =
     map Rune ''xlink:href''
       @ [Star space, Rune CHR ''='', Star space, Cap,
          One quote, Cap, Plus notQuote, Cap, One quote, Cap]"

definition urlRegex :: "item list" where
  "urlRegex =
     map Rune ''url''
       @ [Star space, Rune CHR ''('', Star space, Cap,
          Opt quote, Cap, Plus notQuoteParen, Cap, Opt quote, Star space, Rune CHR '')'', Cap]"

text \<open>The three functions that \<open>embedImages\<close> passes to \<open>ReplaceAllStringFunc\<close>.\<close>

definition embedImgSrc ::
  "(string \<Rightarrow> string) \<Rightarrow> string \<Rightarrow> (string \<rightharpoonup> zip_File) \<Rightarrow> string \<Rightarrow> string" where
  "embedImgSrc U basePath files match =
     (let parts = FindStringSubmatch imgSrcRegex match in
      if length parts < 5 then match
      else
        let uri = resolveAndEmbed U (parts ! 3) basePath files in
        if uri \<noteq> [] then parts ! 1 @ parts ! 2 @ uri @ parts ! 4 else match)"

definition embedXlink ::
  "(string \<Rightarrow> string) \<Rightarrow> string \<Rightarrow> (string \<rightharpoonup> zip_File) \<Rightarrow> string \<Rightarrow> string" where
  "embedXlink U basePath files match =
     (let parts = FindStringSubmatch xlinkRegex match in
      if length parts < 5 then match
      else if isImageFile U (parts ! 3) then
        (let uri = resolveAndEmbed U (parts ! 3) basePath files in
         if uri \<noteq> [] then parts ! 1 @ parts ! 2 @ uri @ parts ! 4 else match)
      else match)"

definition embedUrl ::
  "(string \<Rightarrow> string) \<Rightarrow> string \<Rightarrow> (string \<rightharpoonup> zip_File) \<Rightarrow> string \<Rightarrow> string" where
  "embedUrl U basePath files match =
     (let parts = FindStringSubmatch urlRegex match in
      if length parts < 5 then match
      else if isImageFile U (parts ! 3) then
        (let uri = resolveAndEmbed U (parts ! 3) basePath files in
         if uri \<noteq> [] then parts ! 1 @ parts ! 2 @ uri @ parts ! 4 else match)
      else match)"

definition embedImages ::
  "(string \<Rightarrow> string) \<Rightarrow> string \<Rightarrow> string \<Rightarrow> (string \<rightharpoonup> zip_File) \<Rightarrow> string" where
  "embedImages U content basePath files =
     (let content = ReplaceAllStringFunc imgSrcRegex content (embedImgSrc U basePath files);
          content = ReplaceAllStringFunc xlinkRegex content (embedXlink U basePath files);
          content = ReplaceAllStringFunc urlRegex content (embedUrl U basePath files)
      in content)"

section \<open>The parser\<close>

text \<open>
  \<open>Parse\<close> opens the archive, reads the container descriptor and the package document and
  builds the book. What it gets from outside is a parameter here: the result of
  \<open>zip.OpenReader\<close> (the entries of the archive, or \<open>None\<close> when the file cannot be opened
  as an archive) and the decoding of the two XML documents by \<open>encoding/xml\<close>.

  \<open>parseContainer\<close> and \<open>parsePackage\<close> open the entry and hand the reader to the decoder
  (\<open>xml.NewDecoder(rc).Decode\<close>); they do not read the entry to its end first. The decoder
  reads as far as it needs, up to the end tag of the root element, so it can succeed on a
  reader that ends with an error. The decoders are therefore functions of the reader, with
  \<open>None\<close> for a document that cannot be decoded.
\<close>

datatype error =
  OpenFailed | ContainerNotFound | EntryOpenFailed | ContainerMalformed | NoRootFile
  | OPFNotFound string | OPFMalformed

definition parseContainer :: "(reader \<Rightarrow> Container option) \<Rightarrow> zip_File \<Rightarrow> error + Container" where
  "parseContainer xmlContainer f =
     (case Open f of
        None \<Rightarrow> Inl EntryOpenFailed
      | Some rc \<Rightarrow>
          (case xmlContainer rc of None \<Rightarrow> Inl ContainerMalformed | Some c \<Rightarrow> Inr c))"

definition parsePackage :: "(reader \<Rightarrow> Package option) \<Rightarrow> zip_File \<Rightarrow> error + Package" where
  "parsePackage xmlPackage f =
     (case Open f of
        None \<Rightarrow> Inl EntryOpenFailed
      | Some rc \<Rightarrow>
          (case xmlPackage rc of None \<Rightarrow> Inl OPFMalformed | Some pkg \<Rightarrow> Inr pkg))"

text \<open>
  The first part of \<open>Parse\<close>, up to the decoded package document: the file map, the path
  of the package document and the package.
\<close>

definition openPackage ::
  "(reader \<Rightarrow> Container option) \<Rightarrow> (reader \<Rightarrow> Package option) \<Rightarrow> zip_File list option
   \<Rightarrow> error + ((string \<rightharpoonup> zip_File) \<times> string \<times> Package)" where
  "openPackage xmlContainer xmlPackage archive =
     (case archive of
        None \<Rightarrow> Inl OpenFailed
      | Some entries \<Rightarrow>
          (case fileMap entries ''META-INF/container.xml'' of
             None \<Rightarrow> Inl ContainerNotFound
           | Some containerFile \<Rightarrow>
               (case parseContainer xmlContainer containerFile of
                  Inl err \<Rightarrow> Inl err
                | Inr container \<Rightarrow>
                    if length (RootFiles container) = 0 then Inl NoRootFile
                    else
                      (case fileMap entries (FullPath (RootFiles container ! 0)) of
                         None \<Rightarrow> Inl (OPFNotFound (FullPath (RootFiles container ! 0)))
                       | Some opfFile \<Rightarrow>
                           (case parsePackage xmlPackage opfFile of
                              Inl err \<Rightarrow> Inl err
                            | Inr pkg \<Rightarrow>
                                Inr (fileMap entries, FullPath (RootFiles container ! 0), pkg))))))"

definition manifestMap :: "ManifestItem list \<Rightarrow> (string \<rightharpoonup> ManifestItem)" where
  "manifestMap items = foldl (\<lambda>m item. m(ID item \<mapsto> item)) Map.empty items"

text \<open>
  The body of the loop over the manifest: the style sheet an item contributes, if any.
\<close>

definition styleSheet ::
  "(string \<Rightarrow> string) \<Rightarrow> string \<Rightarrow> (string \<rightharpoonup> zip_File) \<Rightarrow> ManifestItem \<Rightarrow> string option" where
  "styleSheet U basePath files item =
     (if MediaType item = ''text/css'' then
        (let cssPath = resolvePath basePath (Href item) in
         case files cssPath of
           None \<Rightarrow> None
         | Some cssFile \<Rightarrow>
             (case readFileContent cssFile of
                None \<Rightarrow> None
              | Some content \<Rightarrow> Some (embedImages U content (path_Dir cssPath) files)))
      else None)"

fun cssLoop ::
  "(string \<Rightarrow> string) \<Rightarrow> string \<Rightarrow> (string \<rightharpoonup> zip_File) \<Rightarrow> ManifestItem list \<Rightarrow> string list
   \<Rightarrow> string list" where
  "cssLoop U basePath files [] css = css"
| "cssLoop U basePath files (item # items) css =
     cssLoop U basePath files items
       (case styleSheet U basePath files item of None \<Rightarrow> css | Some content \<Rightarrow> css @ [content])"

text \<open>
  The body of the loop over the spine: the chapter that the entry at index \<open>i\<close>
  contributes, or \<open>None\<close> where the loop says \<open>continue\<close>.
\<close>

definition spineChapter ::
  "(string \<Rightarrow> string) \<Rightarrow> string \<Rightarrow> (string \<rightharpoonup> zip_File) \<Rightarrow> (string \<rightharpoonup> ManifestItem)
   \<Rightarrow> nat \<Rightarrow> SpineItemRef \<Rightarrow> Chapter option" where
  "spineChapter U basePath files manifest i itemRef =
     (case manifest (IDRef itemRef) of
        None \<Rightarrow> None
      | Some item \<Rightarrow>
          if \<not> strings_Contains (MediaType item) ''html'' \<and> \<not> strings_Contains (MediaType item) ''xml''
          then None
          else
            let chapterPath = resolvePath basePath (Href item) in
            case files chapterPath of
              None \<Rightarrow> None
            | Some chapterFile \<Rightarrow>
                (case readFileContent chapterFile of
                   None \<Rightarrow> None
                 | Some content \<Rightarrow>
                     Some \<lparr>ChapterTitle = ID item,
                           Content = embedImages U content (path_Dir chapterPath) files,
                           Order = i\<rparr>))"

fun chapterLoop ::
  "(string \<Rightarrow> string) \<Rightarrow> string \<Rightarrow> (string \<rightharpoonup> zip_File) \<Rightarrow> (string \<rightharpoonup> ManifestItem)
   \<Rightarrow> nat \<Rightarrow> SpineItemRef list \<Rightarrow> Chapter list \<Rightarrow> Chapter list" where
  "chapterLoop U basePath files manifest i [] chapters = chapters"
| "chapterLoop U basePath files manifest i (itemRef # itemRefs) chapters =
     chapterLoop U basePath files manifest (Suc i) itemRefs
       (case spineChapter U basePath files manifest i itemRef of
          None \<Rightarrow> chapters
        | Some c \<Rightarrow> chapters @ [c])"

text \<open>
  \<open>sort.Slice\<close> sorts by the given \<open>less\<close>. The library does not say where elements go that
  are equal under \<open>less\<close>; the model is its insertion sort, which moves each element to the
  left while it is less than the element before it (\<open>before\<close> holds the elements already
  placed, the nearest one first). On a slice whose elements are already
  strictly increasing every sorting algorithm gives the slice back.
\<close>

fun insertionStep :: "('a \<Rightarrow> 'a \<Rightarrow> bool) \<Rightarrow> 'a \<Rightarrow> 'a list \<Rightarrow> 'a list" where
  "insertionStep lt x [] = [x]"
| "insertionStep lt x (y # before) =
     (if lt x y then y # insertionStep lt x before else x # y # before)"

definition sort_Slice :: "('a \<Rightarrow> 'a \<Rightarrow> bool) \<Rightarrow> 'a list \<Rightarrow> 'a list" where
  "sort_Slice lt xs = rev (foldl (\<lambda>before x. insertionStep lt x before) [] xs)"

text \<open>The second part of \<open>Parse\<close>: the book of a package document.\<close>

definition buildBook ::
  "(string \<Rightarrow> string) \<Rightarrow> (string \<rightharpoonup> zip_File) \<Rightarrow> string \<Rightarrow> Package \<Rightarrow> Book" where
  "buildBook U files opfPath pkg =
     (let basePath = (if path_Dir opfPath = ''.'' then [] else path_Dir opfPath);
          manifest = manifestMap (Manifest pkg);
          css = cssLoop U basePath files (Manifest pkg) [];
          chapters = chapterLoop U basePath files manifest 0 (Spine pkg) []
      in \<lparr>Title = MetaTitle (Metadata pkg),
          Author = Creator (Metadata pkg),
          Chapters = sort_Slice (\<lambda>a b. Order a < Order b) chapters,
          CSS = css,
          BasePath = basePath\<rparr>)"

definition Parse ::
  "(string \<Rightarrow> string) \<Rightarrow> (reader \<Rightarrow> Container option) \<Rightarrow> (reader \<Rightarrow> Package option)
   \<Rightarrow> zip_File list option \<Rightarrow> error + Book" where
  "Parse U xmlContainer xmlPackage archive =
     (case openPackage xmlContainer xmlPackage archive of
        Inl err \<Rightarrow> Inl err
      | Inr (files, opfPath, pkg) \<Rightarrow> Inr (buildBook U files opfPath pkg))"

section \<open>The document assembler\<close>

definition escapeHTML :: "string \<Rightarrow> string" where
  "escapeHTML s =
     (let s = strings_ReplaceAll s ''&'' ''&amp;'';
          s = strings_ReplaceAll s ''<'' ''&lt;'';
          s = strings_ReplaceAll s ''>'' ''&gt;'';
          s = strings_ReplaceAll s [CHR 0x22] ''&quot;''
      in s)"

definition extractBodyContent :: "(string \<Rightarrow> string) \<Rightarrow> string \<Rightarrow> panic + string" where
  "extractBodyContent U html =
     (let bodyStart = strings_Index (strings_ToLower U html) ''<body'' in
      if bodyStart = - 1 then Inr html
      else
        case slice html bodyStart (int (length html)) of
          Inl e \<Rightarrow> Inl e
        | Inr rest \<Rightarrow>
            let bodyTagEnd = strings_Index rest ''>'' in
            if bodyTagEnd = - 1 then Inr html
            else
              let bodyStart = bodyStart + bodyTagEnd + 1;
                  bodyEnd = strings_LastIndex (strings_ToLower U html) ''</body>'';
                  bodyEnd = (if bodyEnd = - 1 then int (length html) else bodyEnd)
              in slice html bodyStart bodyEnd)"

text \<open>
  The fixed style block of \<open>ToHTML\<close> is a raw string literal: a line feed, then the lines
  below, each indented by tab characters and ended by a line feed, then one tab.
\<close>

definition styleLine :: "nat \<times> string \<Rightarrow> string" where
  "styleLine l = replicate (fst l) (CHR 0x09) @ snd l @ [CHR 0x0A]"

definition baseStyle :: string where
  "baseStyle =
     [CHR 0x0A] @ concat (map styleLine
       [(2, ''body {''),
        (3, ''font-family: Georgia, 'Times New Roman', serif;''),
        (3, ''line-height: 1.6;''),
        (3, ''max-width: 800px;''),
        (3, ''margin: 0 auto;''),
        (3, ''padding: 40px 20px;''),
        (3, ''color: #333;''),
        (2, ''}''),
        (2, ''h1, h2, h3, h4, h5, h6 {''),
        (3, ''margin-top: 1.5em;''),
        (3, ''margin-bottom: 0.5em;''),
        (2, ''}''),
        (2, ''p {''),
        (3, ''margin: 0.8em 0;''),
        (3, ''text-align: justify;''),
        (2, ''}''),
        (2, ''img {''),
        (3, ''max-width: 100%;''),
        (3, ''height: auto;''),
        (2, ''}''),
        (2, ''.chapter {''),
        (3, ''page-break-before: always;''),
        (2, ''}''),
        (2, ''.chapter:first-child {''),
        (3, ''page-break-before: avoid;''),
        (2, ''}''),
        (2, ''.title-page {''),
        (3, ''text-align: center;''),
        (3, ''padding: 100px 0;''),
        (2, ''}''),
        (2, ''.title-page h1 {''),
        (3, ''font-size: 2.5em;''),
        (3, ''margin-bottom: 0.5em;''),
        (2, ''}''),
        (2, ''.title-page .author {''),
        (3, ''font-size: 1.3em;''),
        (3, ''color: #666;''),
        (2, ''}'')]) @ [CHR 0x09]"

fun chaptersHTML :: "(string \<Rightarrow> string) \<Rightarrow> Chapter list \<Rightarrow> panic + string" where
  "chaptersHTML U [] = Inr []"
| "chaptersHTML U (chapter # rest) =
     (case extractBodyContent U (Content chapter) of
        Inl e \<Rightarrow> Inl e
      | Inr content \<Rightarrow>
          (case chaptersHTML U rest of
             Inl e \<Rightarrow> Inl e
           | Inr others \<Rightarrow>
               Inr (''<div class='' @ [CHR 0x22] @ ''chapter'' @ [CHR 0x22] @ ''>'' @ [CHR 0x0A]
                    @ content @ [CHR 0x0A] @ ''</div>'' @ [CHR 0x0A] @ others)))"

definition ToHTML :: "(string \<Rightarrow> string) \<Rightarrow> Book \<Rightarrow> panic + string" where
  "ToHTML U b =
     (case chaptersHTML U (Chapters b) of
        Inl e \<Rightarrow> Inl e
      | Inr chapters \<Rightarrow>
          Inr (''<!DOCTYPE html>'' @ [CHR 0x0A] @ ''<html>'' @ [CHR 0x0A] @ ''<head>'' @ [CHR 0x0A]
               @ ''<meta charset='' @ [CHR 0x22] @ ''UTF-8'' @ [CHR 0x22] @ ''>'' @ [CHR 0x0A]
               @ ''<title>'' @ escapeHTML (Title b) @ ''</title>'' @ [CHR 0x0A]
               @ ''<style>'' @ [CHR 0x0A]
               @ baseStyle
               @ concat (map (\<lambda>css. css @ [CHR 0x0A]) (CSS b))
               @ ''</style>'' @ [CHR 0x0A]
               @ ''</head>'' @ [CHR 0x0A] @ ''<body>'' @ [CHR 0x0A]
               @ ''<div class='' @ [CHR 0x22] @ ''title-page'' @ [CHR 0x22] @ ''>'' @ [CHR 0x0A]
               @ ''<h1>'' @ escapeHTML (Title b) @ ''</h1>'' @ [CHR 0x0A]
               @ (if Author b \<noteq> []
                  then ''<p class='' @ [CHR 0x22] @ ''author'' @ [CHR 0x22] @ ''>''
                       @ escapeHTML (Author b) @ ''</p>'' @ [CHR 0x0A]
                  else [])
               @ ''</div>'' @ [CHR 0x0A]
               @ chapters
               @ ''</body>'' @ [CHR 0x0A] @ ''</html>''))"

text \<open>The named character reference of one byte; every other byte stands for itself.\<close>

definition charRef :: "char \<Rightarrow> string" where
  "charRef c =
     (if c = CHR ''&'' then ''&amp;''
      else if c = CHR ''<'' then ''&lt;''
      else if c = CHR ''>'' then ''&gt;''
      else if c = CHR 0x22 then ''&quot;''
      else [c])"

section \<open>An example archive\<close>

text \<open>
  A package document at \<open>OEBPS/content.opf\<close> with two style sheets, two chapters and one
  image in its manifest. The spine names \<open>cover\<close>, which the manifest does not have, the
  first chapter, the image (which is no markup), the second chapter and \<open>notes\<close>, which
  the manifest does not have either. The first chapter shows the image, one directory up
  from its own. The entry of the package document has a wrong checksum: its reader delivers
  the document and then ends with an error. The XML decoder is replaced by the decoded
  documents.
\<close>

definition pngBytes :: string where
  "pngBytes = [CHR 0x89, CHR ''P'', CHR ''N'', CHR ''G'', CHR 0x0D, CHR 0x0A, CHR 0x1A, CHR 0x0A]"

definition demoContainer :: Container where
  "demoContainer =
     \<lparr>RootFiles = [\<lparr>FullPath = ''OEBPS/content.opf'',
                    RootMediaType = ''application/oebps-package+xml''\<rparr>]\<rparr>"

definition demoPackage :: Package where
  "demoPackage =
     \<lparr>Metadata = \<lparr>MetaTitle = ''Title'', Creator = ''Author''\<rparr>,
      Manifest =
        [\<lparr>ID = ''css'', Href = ''style.css'', MediaType = ''text/css''\<rparr>,
         \<lparr>ID = ''ch1'', Href = ''text/ch1.xhtml'', MediaType = ''application/xhtml+xml''\<rparr>,
         \<lparr>ID = ''img'', Href = ''images/a.png'', MediaType = ''image/png''\<rparr>,
         \<lparr>ID = ''print'', Href = ''print.css'', MediaType = ''text/css''\<rparr>,
         \<lparr>ID = ''ch2'', Href = ''text/ch2.xhtml'', MediaType = ''application/xhtml+xml''\<rparr>],
      Spine = [\<lparr>IDRef = ''cover''\<rparr>, \<lparr>IDRef = ''ch1''\<rparr>, \<lparr>IDRef = ''img''\<rparr>,
               \<lparr>IDRef = ''ch2''\<rparr>, \<lparr>IDRef = ''notes''\<rparr>]\<rparr>"

definition demoEntries :: "zip_File list" where
  "demoEntries =
     [\<lparr>Name = ''META-INF/container.xml'', Open = Some (Reader ''<container/>'' False)\<rparr>,
      \<lparr>Name = ''OEBPS/content.opf'', Open = Some (Reader ''<package/>'' True)\<rparr>,
      \<lparr>Name = ''OEBPS/style.css'', Open = Some (Reader ''p{}'' False)\<rparr>,
      \<lparr>Name = ''OEBPS/print.css'', Open = Some (Reader ''h1{}'' False)\<rparr>,
      \<lparr>Name = ''OEBPS/text/ch1.xhtml'',
       Open = Some (Reader (''<img src='' @ [CHR 0x22] @ ''../images/a.png'' @ [CHR 0x22] @ ''>'') False)\<rparr>,
      \<lparr>Name = ''OEBPS/text/ch2.xhtml'', Open = Some (Reader ''<p>two</p>'' False)\<rparr>,
      \<lparr>Name = ''OEBPS/images/a.png'', Open = Some (Reader pngBytes False)\<rparr>]"

definition demoParse :: "error + Book" where
  "demoParse =
     Parse (\<lambda>s. s) (\<lambda>rc. Some demoContainer) (\<lambda>rc. Some demoPackage) (Some demoEntries)"

definition demoBook :: Book where
  "demoBook =
     \<lparr>Title = ''Title'', Author = ''Author'',
      Chapters =
        [\<lparr>ChapterTitle = ''ch1'',
          Content = ''<img src='' @ [CHR 0x22] @ ''data:image/png;base64,iVBORw0KGgo=''
                    @ [CHR 0x22] @ ''>'',
          Order = 1\<rparr>,
         \<lparr>ChapterTitle = ''ch2'', Content = ''<p>two</p>'', Order = 3\<rparr>],
      CSS = [''p{}'', ''h1{}''],
      BasePath = ''OEBPS''\<rparr>"


definition demoTag :: "string \<Rightarrow> string" where
  "demoTag src = ''<img src='' @ [CHR 0x22] @ src @ [CHR 0x22]"

definition plusEntries :: "zip_File list" where
  "plusEntries = [\<lparr>Name = ''a+b.png'', Open = Some (Reader pngBytes False)\<rparr>]"

definition panicBook :: Book where
  "panicBook =
     \<lparr>Title = ''Title'', Author = [],
      Chapters = [\<lparr>ChapterTitle = ''ch1'', Content = ''</body><body>'', Order = 0\<rparr>],
      CSS = [], BasePath = []\<rparr>"





section \<open>Vocabulary for stating the properties\<close>

text \<open>
  An ordinary path segment is a non-empty name without a slash other than \<open>.\<close> and
  \<open>..\<close>. \<open>slashJoin\<close> writes a list of segments as a path; \<open>directoryPath\<close> is the form
  in which \<open>path.Dir\<close> names a directory: \<open>.\<close> for the archive root, the joined segments
  otherwise. \<open>parentRefs n\<close> is \<open>n\<close> leading \<open>../\<close> segments. A path escapes the root
  when it is \<open>..\<close> or begins with a \<open>..\<close> segment.
\<close>

definition ordinarySegment :: "string \<Rightarrow> bool" where
  "ordinarySegment c = (c \<noteq> [] \<and> CHR ''/'' \<notin> set c \<and> c \<noteq> ''.'' \<and> c \<noteq> ''..'')"

fun slashJoin :: "string list \<Rightarrow> string" where
  "slashJoin [] = []"
| "slashJoin [c] = c"
| "slashJoin (c # d # cs) = c @ ''/'' @ slashJoin (d # cs)"

definition directoryPath :: "string list \<Rightarrow> string" where
  "directoryPath cs = (if cs = [] then ''.'' else slashJoin cs)"

definition parentRefs :: "nat \<Rightarrow> string" where
  "parentRefs n = concat (replicate n ''../'')"

definition appendSegment :: "string \<Rightarrow> string \<Rightarrow> string" where
  "appendSegment out c = (if out = [] then c else out @ ''/'' @ c)"

definition escapesRoot :: "string \<Rightarrow> bool" where
  "escapesRoot p = (p = ''..'' \<or> strings_HasPrefix p ''../'')"

text \<open>
  A text has a match of a pattern when the pattern matches at some offset of the text.
\<close>

definition hasMatch :: "item list \<Rightarrow> string \<Rightarrow> bool" where
  "hasMatch re s = list_ex (\<lambda>i. matchHere re (drop i s) 0 \<noteq> None) [0..<Suc (length s)]"





section \<open>Properties\<close>

subsection \<open>Escaping\<close>

lemma replaceFrom_single:
  "replaceFrom s [c] new = concat (map (\<lambda>x. if x = c then new else [x]) s)"
proof (induction s)
  case Nil
  show ?case by (subst replaceFrom.simps) simp
next
  case (Cons a s)
  show ?case
  proof (cases "a = c")
    case True
    then have "strings_HasPrefix (a # s) [c]" by (simp add: strings_HasPrefix_def)
    then have "replaceFrom (a # s) [c] new = new @ replaceFrom s [c] new"
      by (subst replaceFrom.simps) simp
    with True Cons.IH show ?thesis by simp
  next
    case False
    then have "\<not> strings_HasPrefix (a # s) [c]" by (simp add: strings_HasPrefix_def)
    then have "replaceFrom (a # s) [c] new = a # replaceFrom s [c] new"
      by (subst replaceFrom.simps) simp
    with False Cons.IH show ?thesis by simp
  qed
qed

lemma ReplaceAll_single:
  "[c] \<noteq> new \<Longrightarrow>
   strings_ReplaceAll s [c] new = concat (map (\<lambda>x. if x = c then new else [x]) s)"
  by (simp add: strings_ReplaceAll_def replaceFrom_single)

lemma escapeHTML_Nil: "escapeHTML [] = []"
  by (simp add: escapeHTML_def ReplaceAll_single)

lemma escapeHTML_Cons: "escapeHTML (c # s) = charRef c @ escapeHTML s"
  by (simp add: escapeHTML_def ReplaceAll_single charRef_def)

text \<open>
  C9. Escaping replaces \<open>&\<close>, \<open><\<close>, \<open>>\<close> and the double quote by \<open>&amp;\<close>, \<open>&lt;\<close>,
  \<open>&gt;\<close> and \<open>&quot;\<close>. The four replacements of the code run one after the other in
  that order, and their composition rewrites every byte of the input exactly once: the
  result is the concatenation of the character references of the input's bytes, so an
  ampersand that an earlier replacement wrote is not escaped again.
\<close>

theorem escapeHTML_once:
  "escapeHTML s = concat (map charRef s)"
  by (induction s) (simp_all add: escapeHTML_Nil escapeHTML_Cons)

subsection \<open>Cleaning and joining paths of ordinary segments\<close>

lemma clean_loop_slash:
  "clean_loop rooted out dotdot (CHR ''/'' # rest) = clean_loop rooted out dotdot rest"
  by (simp add: clean_loop.simps(2))

lemma clean_loop_segment:
  assumes c: "ordinarySegment c" and rest: "rest = [] \<or> hd rest = CHR ''/''"
  shows "clean_loop False out 0 (c @ rest) = clean_loop False (appendSegment out c) 0 rest"
proof -
  from c obtain x xs where cx: "c = x # xs" by (cases c) (auto simp: ordinarySegment_def)
  from c cx have x: "x \<noteq> CHR ''/''" and xs: "CHR ''/'' \<notin> set xs"
    by (auto simp: ordinarySegment_def)
  have no_dot: "\<not> (x = CHR ''.'' \<and> (xs @ rest = [] \<or> hd (xs @ rest) = CHR ''/''))"
  proof (cases xs)
    case Nil
    with c cx show ?thesis by (auto simp: ordinarySegment_def)
  next
    case (Cons y ys)
    with xs show ?thesis by auto
  qed
  have no_dotdot: "\<not> (x = CHR ''.'' \<and> xs @ rest \<noteq> [] \<and> hd (xs @ rest) = CHR ''.''
       \<and> (tl (xs @ rest) = [] \<or> hd (tl (xs @ rest)) = CHR ''/''))"
  proof (cases xs)
    case Nil
    with rest show ?thesis by auto
  next
    case (Cons y ys)
    show ?thesis
    proof (cases ys)
      case Nil
      with Cons c cx show ?thesis by (auto simp: ordinarySegment_def)
    next
      case (Cons z zs)
      with \<open>xs = y # ys\<close> xs show ?thesis by auto
    qed
  qed
  from x xs rest have tw: "takeWhile (\<lambda>x. x \<noteq> CHR ''/'') (x # xs @ rest) = x # xs"
    by (cases rest) (auto simp: takeWhile_tail)
  from x xs rest have dw: "dropWhile (\<lambda>x. x \<noteq> CHR ''/'') (x # xs @ rest) = rest"
    by (cases rest) (auto simp: dropWhile_append)
  have tw': "takeWhile (\<lambda>x. x \<noteq> CHR ''/'') (xs @ rest) = xs"
    using tw x by simp
  have dw': "dropWhile (\<lambda>x. x \<noteq> CHR ''/'') (xs @ rest) = rest"
    using dw x by simp
  have "clean_loop False out 0 (x # (xs @ rest)) =
        clean_loop False
          ((if False \<and> length out \<noteq> 1 \<or> \<not> False \<and> length out \<noteq> 0 then out @ ''/'' else out)
            @ takeWhile (\<lambda>x. x \<noteq> CHR ''/'') (x # (xs @ rest)))
          0 (dropWhile (\<lambda>x. x \<noteq> CHR ''/'') (x # (xs @ rest)))"
    by (subst clean_loop.simps(2), subst if_not_P [OF x], subst if_not_P [OF no_dot],
        subst if_not_P [OF no_dotdot]) (rule refl)
  also have "\<dots> = clean_loop False (appendSegment out c) 0 rest"
    using tw dw by (simp add: appendSegment_def cx)
  finally show ?thesis by (simp add: cx)
qed


lemma slashJoin_snoc:
  "slashJoin (cs @ [c]) = (if cs = [] then c else slashJoin cs @ ''/'' @ c)"
  by (induction cs rule: slashJoin.induct) auto

lemma slashJoin_Cons:
  "slashJoin (c # cs) = (if cs = [] then c else c @ ''/'' @ slashJoin cs)"
  by (cases cs) auto

lemma slashJoin_eq_Nil:
  "list_all ordinarySegment cs \<Longrightarrow> slashJoin cs = [] \<longleftrightarrow> cs = []"
  by (cases cs) (auto simp: slashJoin_Cons ordinarySegment_def)

lemma hd_slashJoin:
  "list_all ordinarySegment cs \<Longrightarrow> cs \<noteq> [] \<Longrightarrow> hd (slashJoin cs) \<noteq> CHR ''/''"
  by (cases cs) (auto simp: slashJoin_Cons ordinarySegment_def neq_Nil_conv)

text \<open>Cleaning a run of ordinary segments appends them to the buffer.\<close>

lemma clean_loop_segments:
  assumes "list_all ordinarySegment cs" and "rest = [] \<or> hd rest = CHR ''/''"
  shows "clean_loop False out 0 (slashJoin cs @ rest) =
         clean_loop False (foldl appendSegment out cs) 0 rest"
  using assms
proof (induction cs arbitrary: out)
  case Nil
  then show ?case by simp
next
  case (Cons c cs)
  show ?case
  proof (cases "cs = []")
    case True
    with Cons.prems show ?thesis by (simp add: clean_loop_segment)
  next
    case False
    have seg: "ordinarySegment c" and all: "list_all ordinarySegment cs"
      using Cons.prems by simp_all
    have "clean_loop False out 0 (slashJoin (c # cs) @ rest) =
          clean_loop False out 0 (c @ (CHR ''/'' # slashJoin cs @ rest))"
      using False by (simp add: slashJoin_Cons)
    also have "\<dots> = clean_loop False (appendSegment out c) 0 (CHR ''/'' # slashJoin cs @ rest)"
      by (rule clean_loop_segment [OF seg]) simp
    also have "\<dots> = clean_loop False (appendSegment out c) 0 (slashJoin cs @ rest)"
      by (rule clean_loop_slash)
    also have "\<dots> = clean_loop False (foldl appendSegment (appendSegment out c) cs) 0 rest"
      by (rule Cons.IH [OF all Cons.prems(2)])
    finally show ?thesis by simp
  qed
qed

lemma foldl_appendSegment:
  "list_all ordinarySegment bs \<Longrightarrow> list_all ordinarySegment cs \<Longrightarrow>
   foldl appendSegment (slashJoin bs) cs = slashJoin (bs @ cs)"
proof (induction cs arbitrary: bs)
  case Nil
  then show ?case by simp
next
  case (Cons c cs)
  have "appendSegment (slashJoin bs) c = slashJoin (bs @ [c])"
    using Cons.prems(1) by (simp add: appendSegment_def slashJoin_snoc slashJoin_eq_Nil)
  moreover have "list_all ordinarySegment (bs @ [c])"
    using Cons.prems by simp
  ultimately show ?case using Cons.IH [of "bs @ [c]"] Cons.prems by simp
qed

lemma clean_loop_relative:
  assumes "list_all ordinarySegment cs" and "rest = [] \<or> rest = ''/''"
  shows "clean_loop False [] 0 (slashJoin cs @ rest) = slashJoin cs"
proof -
  have "clean_loop False [] 0 (slashJoin cs @ rest) = clean_loop False (foldl appendSegment [] cs) 0 rest"
    using assms by (intro clean_loop_segments) auto
  also have "foldl appendSegment [] cs = slashJoin cs"
    using foldl_appendSegment [of "[]" cs] assms by simp
  also have "clean_loop False (slashJoin cs) 0 rest = slashJoin cs"
    using assms(2) by (auto simp: clean_loop_slash)
  finally show ?thesis .
qed

lemma path_Clean_segments:
  assumes "list_all ordinarySegment cs" and "rest = [] \<or> rest = ''/''"
    and "cs \<noteq> []"
  shows "path_Clean (slashJoin cs @ rest) = slashJoin cs"
proof -
  have ne: "slashJoin cs \<noteq> []" using assms by (simp add: slashJoin_eq_Nil)
  moreover have "hd (slashJoin cs @ rest) \<noteq> CHR ''/''"
    using hd_slashJoin [OF assms(1,3)] ne by simp
  ultimately show ?thesis
    using clean_loop_relative [OF assms(1,2)] by (simp add: path_Clean_def)
qed

lemma path_Clean_dot_segments:
  assumes "list_all ordinarySegment cs"
  shows "path_Clean (''./'' @ slashJoin cs) = directoryPath cs"
proof -
  have "clean_loop False [] 0 (''./'' @ slashJoin cs) = clean_loop False [] 0 (slashJoin cs @ [])"
    by (simp add: clean_loop.simps(2))
  also have "\<dots> = slashJoin cs"
    by (rule clean_loop_relative [OF assms]) simp
  finally show ?thesis
    using assms by (simp add: path_Clean_def directoryPath_def slashJoin_eq_Nil)
qed

lemma path_Join_directory:
  assumes bs: "list_all ordinarySegment bs" and rs: "list_all ordinarySegment rs"
  shows "path_Join [directoryPath bs, slashJoin rs] = directoryPath (bs @ rs)"
proof (cases "bs = []")
  case True
  then show ?thesis
    using path_Clean_dot_segments [OF rs] by (simp add: path_Join_def directoryPath_def)
next
  case False
  have ne: "slashJoin bs \<noteq> []" using bs False by (simp add: slashJoin_eq_Nil)
  have all: "list_all ordinarySegment (bs @ rs)" using bs rs by simp
  have "join_buf [] [slashJoin bs, slashJoin rs] =
        slashJoin (bs @ rs) @ (if rs = [] then ''/'' else [])"
  proof (cases "rs = []")
    case True
    with ne show ?thesis by simp
  next
    case rne: False
    have "slashJoin (bs @ rs) = slashJoin bs @ ''/'' @ slashJoin rs"
      using False rne by (induction bs rule: slashJoin.induct) (auto simp: slashJoin_Cons)
    with ne rne show ?thesis by simp
  qed
  then have "path_Clean (join_buf [] [slashJoin bs, slashJoin rs]) = slashJoin (bs @ rs)"
    using path_Clean_segments [OF all, of "if rs = [] then ''/'' else []"] False by simp
  with ne False show ?thesis by (simp add: path_Join_def directoryPath_def)
qed

lemma path_Split_dir_segments:
  assumes "list_all ordinarySegment (cs @ [c])"
  shows "path_Split_dir (slashJoin (cs @ [c])) = (if cs = [] then [] else slashJoin cs @ ''/'')"
proof -
  from assms have c: "CHR ''/'' \<notin> set c" by (simp add: ordinarySegment_def)
  then have dw: "dropWhile (\<lambda>x. x \<noteq> CHR ''/'') (rev c) = []" by auto
  show ?thesis
  proof (cases "cs = []")
    case True
    with dw show ?thesis by (simp add: path_Split_dir_def)
  next
    case False
    then have "rev (slashJoin (cs @ [c])) = rev c @ CHR ''/'' # rev (slashJoin cs)"
      by (simp add: slashJoin_snoc)
    moreover have "dropWhile (\<lambda>x. x \<noteq> CHR ''/'') (rev c @ CHR ''/'' # rev (slashJoin cs))
        = CHR ''/'' # rev (slashJoin cs)"
      using c by (auto simp: dropWhile_append)
    ultimately show ?thesis using False by (simp add: path_Split_dir_def)
  qed
qed

lemma path_Dir_directory:
  assumes "list_all ordinarySegment bs"
  shows "path_Dir (directoryPath bs) = directoryPath (butlast bs)"
proof (cases bs rule: rev_cases)
  case Nil
  then show ?thesis by (simp add: path_Dir_def directoryPath_def path_Split_dir_def path_Clean_def)
next
  case (snoc cs c)
  with assms have all: "list_all ordinarySegment cs" by simp
  show ?thesis
  proof (cases "cs = []")
    case True
    with snoc assms path_Split_dir_segments [of "[]" c] show ?thesis
      by (simp add: path_Dir_def directoryPath_def path_Clean_def)
  next
    case False
    have "path_Split_dir (slashJoin (cs @ [c])) = slashJoin cs @ ''/''"
      using path_Split_dir_segments [of cs c] assms snoc False by simp
    then have "path_Dir (slashJoin (cs @ [c])) = slashJoin cs"
      using path_Clean_segments [OF all, of "''/''"] False by (simp add: path_Dir_def)
    with snoc False show ?thesis by (simp add: directoryPath_def)
  qed
qed

lemma directoryPath_nonempty:
  "list_all ordinarySegment bs \<Longrightarrow> directoryPath bs \<noteq> []"
  by (simp add: directoryPath_def slashJoin_eq_Nil)

lemma strings_HasPrefix_iff: "strings_HasPrefix s p \<longleftrightarrow> (\<exists>t. s = p @ t)"
proof
  assume "strings_HasPrefix s p"
  then have "s = p @ drop (length p) s"
    by (metis append_take_drop_id strings_HasPrefix_def)
  then show "\<exists>t. s = p @ t" ..
next
  assume "\<exists>t. s = p @ t"
  then show "strings_HasPrefix s p" by (auto simp: strings_HasPrefix_def)
qed

lemma slashJoin_no_parent:
  assumes "list_all ordinarySegment rs"
  shows "\<not> strings_HasPrefix (slashJoin rs) ''../''"
proof (cases rs)
  case Nil
  then show ?thesis by (simp add: strings_HasPrefix_def)
next
  case (Cons c cs)
  with assms have c: "ordinarySegment c" by simp
  define tail where "tail = (if cs = [] then [] else ''/'' @ slashJoin cs)"
  have sj: "slashJoin rs = c @ tail" using Cons by (simp add: slashJoin_Cons tail_def)
  have tail: "tail = [] \<or> hd tail = CHR ''/''" by (simp add: tail_def)
  show ?thesis
  proof
    assume "strings_HasPrefix (slashJoin rs) ''../''"
    then obtain t where t: "c @ tail = ''../'' @ t"
      unfolding strings_HasPrefix_iff sj by blast
    show False
    proof (cases c)
      case Nil
      with c show False by (simp add: ordinarySegment_def)
    next
      case c1: (Cons x xs)
      show False
      proof (cases xs)
        case Nil
        with c1 t tail c show False by (cases tail) (auto simp: ordinarySegment_def)
      next
        case c2: (Cons y ys)
        show False
        proof (cases ys)
          case Nil
          with c1 c2 t c show False by (auto simp: ordinarySegment_def)
        next
          case (Cons z zs)
          with c1 c2 t c show False by (auto simp: ordinarySegment_def)
        qed
      qed
    qed
  qed
qed

lemma resolveRelativePath_segments:
  assumes "list_all ordinarySegment bs" and "list_all ordinarySegment rs"
  shows "resolveRelativePath (directoryPath bs) (parentRefs n @ slashJoin rs) =
         directoryPath (take (length bs - n) bs @ rs)"
  using assms(1)
proof (induction n arbitrary: bs)
  case 0
  then show ?case
    using directoryPath_nonempty [OF 0] slashJoin_no_parent [OF assms(2)]
      path_Join_directory [OF 0 assms(2)]
    by (subst resolveRelativePath.simps) (simp add: parentRefs_def)
next
  case (Suc n)
  have pre: "strings_HasPrefix (parentRefs (Suc n) @ slashJoin rs) ''../''"
    by (simp add: strings_HasPrefix_def parentRefs_def)
  then have trim: "strings_TrimPrefix (parentRefs (Suc n) @ slashJoin rs) ''../'' = parentRefs n @ slashJoin rs"
    by (simp add: strings_TrimPrefix_def parentRefs_def)
  have all: "list_all ordinarySegment (butlast bs)"
    using Suc.prems by (cases bs rule: rev_cases) auto
  have "resolveRelativePath (directoryPath bs) (parentRefs (Suc n) @ slashJoin rs) =
        resolveRelativePath (directoryPath (butlast bs)) (parentRefs n @ slashJoin rs)"
    using directoryPath_nonempty [OF Suc.prems] pre trim path_Dir_directory [OF Suc.prems]
    by (subst resolveRelativePath.simps) simp
  also have "\<dots> = directoryPath (take (length (butlast bs) - n) (butlast bs) @ rs)"
    by (rule Suc.IH [OF all])
  also have "take (length (butlast bs) - n) (butlast bs) = take (length bs - Suc n) bs"
    by (cases bs rule: rev_cases) auto
  finally show ?case .
qed


lemma directoryPath_inside:
  assumes "list_all ordinarySegment cs"
  shows "\<not> escapesRoot (directoryPath cs)"
proof (cases cs)
  case Nil
  then show ?thesis by (simp add: escapesRoot_def directoryPath_def strings_HasPrefix_def)
next
  case (Cons c ds)
  have "slashJoin cs \<noteq> ''..''"
  proof (cases ds)
    case Nil
    with Cons assms show ?thesis by (auto simp: ordinarySegment_def)
  next
    case (Cons d es)
    with \<open>cs = c # ds\<close> have "CHR ''/'' \<in> set (slashJoin cs)" by simp
    then show ?thesis by auto
  qed
  with Cons slashJoin_no_parent [OF assms] show ?thesis
    by (simp add: escapesRoot_def directoryPath_def)
qed





lemma resolveRelativePath_empty_base: "resolveRelativePath [] href = href"
  by (subst resolveRelativePath.simps) simp


lemma path_Clean_nonempty: "path_Clean p \<noteq> []"
  by (simp add: path_Clean_def Let_def)

lemma path_Dir_nonempty: "path_Dir p \<noteq> []"
  by (simp add: path_Dir_def path_Clean_nonempty)

lemma resolveRelativePath_leading:
  assumes "basePath \<noteq> []" and "\<not> strings_HasPrefix rest ''../''"
  shows "resolveRelativePath basePath (parentRefs n @ rest) = path_Join [(path_Dir ^^ n) basePath, rest]"
  using assms(1)
proof (induction n arbitrary: basePath)
  case 0
  with assms(2) show ?case
    by (subst resolveRelativePath.simps) (simp add: parentRefs_def)
next
  case (Suc n)
  have pre: "strings_HasPrefix (parentRefs (Suc n) @ rest) ''../''"
    by (simp add: strings_HasPrefix_def parentRefs_def)
  then have trim: "strings_TrimPrefix (parentRefs (Suc n) @ rest) ''../'' = parentRefs n @ rest"
    by (simp add: strings_TrimPrefix_def parentRefs_def)
  have "resolveRelativePath basePath (parentRefs (Suc n) @ rest) =
        resolveRelativePath (path_Dir basePath) (parentRefs n @ rest)"
    using Suc.prems pre trim by (subst resolveRelativePath.simps) simp
  also have "\<dots> = path_Join [(path_Dir ^^ n) (path_Dir basePath), rest]"
    by (rule Suc.IH) (rule path_Dir_nonempty)
  also have "(path_Dir ^^ n) (path_Dir basePath) = (path_Dir ^^ Suc n) basePath"
    by (simp add: funpow_swap1)
  finally show ?case .
qed

text \<open>
  C6 (as amended). The recursion of \<open>resolveRelativePath\<close> is on a reference that gets
  three bytes shorter with every \<open>../\<close> it consumes, so the function is total: for every
  non-empty base directory, \<open>n\<close> leading \<open>../\<close> segments are consumed by \<open>n\<close> applications
  of \<open>path.Dir\<close> and the remainder is joined to what is left. For a base directory in the
  form \<open>path.Dir\<close> gives it (\<open>.\<close> or ordinary segments) and a remainder of ordinary
  segments, the result is the remainder under the base directory without its last \<open>n\<close>
  segments. When \<open>n\<close> is larger than the depth of the base directory nothing is left of it
  and the remainder is resolved against the archive root: the result never escapes the
  root. With an empty base directory the reference is returned as it is written.
\<close>

theorem resolveRelativePath_clamps:
  assumes "list_all ordinarySegment bs" and "list_all ordinarySegment rs"
  shows "resolveRelativePath (directoryPath bs) (parentRefs n @ slashJoin rs) =
           directoryPath (take (length bs - n) bs @ rs)
         \<and> \<not> escapesRoot (resolveRelativePath (directoryPath bs) (parentRefs n @ slashJoin rs))
         \<and> (basePath \<noteq> [] \<and> \<not> strings_HasPrefix rest ''../'' \<longrightarrow>
              resolveRelativePath basePath (parentRefs n @ rest) =
                path_Join [(path_Dir ^^ n) basePath, rest])
         \<and> resolveRelativePath [] href = href"
proof -
  have "list_all ordinarySegment (take (length bs - n) bs @ rs)"
    using assms by (auto simp: list_all_iff dest: in_set_takeD)
  then have "\<not> escapesRoot (directoryPath (take (length bs - n) bs @ rs))"
    by (rule directoryPath_inside)
  then show ?thesis
    using resolveRelativePath_segments [OF assms, of n] resolveRelativePath_leading [of basePath rest n]
      resolveRelativePath_empty_base [of href]
    by simp
qed

theorem resolveRelativePath_clamps_witness:
  "list_all ordinarySegment [''a'', ''b''] \<and> list_all ordinarySegment [''x.png'']
   \<and> resolveRelativePath ''a/b'' ''../../../x.png'' = ''x.png''
   \<and> \<not> escapesRoot (resolveRelativePath ''a/b'' ''../../../x.png'')
   \<and> ''a/b'' \<noteq> [] \<and> \<not> strings_HasPrefix ''x.png'' ''../''
   \<and> resolveRelativePath ''a/b'' ''../../../x.png''
       = path_Join [path_Dir (path_Dir (path_Dir ''a/b'')), ''x.png'']
   \<and> resolveRelativePath [] ''../x.png'' = ''../x.png''"
proof -
  have a: "list_all ordinarySegment [''a'', ''b'']" by (simp add: ordinarySegment_def)
  have b: "list_all ordinarySegment [''x.png'']" by (simp add: ordinarySegment_def)
  have c: "\<not> strings_HasPrefix ''x.png'' ''../''" by (simp add: strings_HasPrefix_def)
  note th = resolveRelativePath_clamps [OF a b, where n = 3 and basePath = "''a/b''"
      and rest = "''x.png''" and href = "''../x.png''"]
  from th have "resolveRelativePath (directoryPath [''a'', ''b'']) (parentRefs 3 @ slashJoin [''x.png''])
      = directoryPath (take (length [''a'', ''b''] - 3) [''a'', ''b''] @ [''x.png''])"
    by (rule conjunct1)
  then have 1: "resolveRelativePath ''a/b'' ''../../../x.png'' = ''x.png''"
    by (simp add: directoryPath_def parentRefs_def eval_nat_numeral)
  from th have "\<not> escapesRoot (resolveRelativePath (directoryPath [''a'', ''b''])
      (parentRefs 3 @ slashJoin [''x.png'']))"
    by (rule conjunct2 [THEN conjunct1])
  then have 2: "\<not> escapesRoot (resolveRelativePath ''a/b'' ''../../../x.png'')"
    by (simp add: directoryPath_def parentRefs_def eval_nat_numeral)
  from th c have "resolveRelativePath ''a/b'' (parentRefs 3 @ ''x.png'')
      = path_Join [(path_Dir ^^ 3) ''a/b'', ''x.png'']"
    by simp
  then have 3: "resolveRelativePath ''a/b'' ''../../../x.png''
      = path_Join [path_Dir (path_Dir (path_Dir ''a/b'')), ''x.png'']"
    by (simp add: parentRefs_def eval_nat_numeral)
  from th have 4: "resolveRelativePath [] ''../x.png'' = ''../x.png''"
    by (rule conjunct2 [THEN conjunct2, THEN conjunct2])
  from a b c 1 2 3 4 show ?thesis by simp
qed

text \<open>
  The claim as stated, for every reference with leading \<open>../\<close> segments, fails. A chapter
  \<open>a/ch1.xhtml\<close> has the base directory \<open>a\<close>; its reference \<open>../../b/../../x.png\<close> has
  two leading \<open>../\<close> segments, more than the depth of the base directory, and a \<open>..\<close>
  segment after them, which is left to \<open>path.Join\<close>. The result is \<open>../x.png\<close>, above the
  root.
\<close>

theorem resolveRelativePath_escapes:
  "path_Dir ''a/ch1.xhtml'' = ''a''
   \<and> resolveRelativePath (path_Dir ''a/ch1.xhtml'') ''../../b/../../x.png'' = ''../x.png''
   \<and> escapesRoot (resolveRelativePath (path_Dir ''a/ch1.xhtml'') ''../../b/../../x.png'')"
  by code_simp

subsection \<open>Chapters and style sheets of a parsed archive\<close>

lemma chapterLoop_map_filter:
  "chapterLoop U basePath files manifest i itemRefs chapters =
     chapters @ List.map_filter (\<lambda>(j, r). spineChapter U basePath files manifest j r)
                  (enumerate i itemRefs)"
proof (induction itemRefs arbitrary: i chapters)
  case Nil
  show ?case by (simp add: List.map_filter_simps)
next
  case (Cons r rs)
  show ?case
    by (cases "spineChapter U basePath files manifest i r")
       (simp_all add: Cons.IH List.map_filter_simps)
qed

lemma cssLoop_map_filter:
  "cssLoop U basePath files items css =
     css @ List.map_filter (styleSheet U basePath files) items"
proof (induction items arbitrary: css)
  case Nil
  show ?case by (simp add: List.map_filter_simps)
next
  case (Cons item items)
  show ?case
    by (cases "styleSheet U basePath files item") (simp_all add: Cons.IH List.map_filter_simps)
qed

lemma spineChapter_Order:
  "spineChapter U basePath files manifest i r = Some c \<Longrightarrow> Order c = i"
  by (auto simp: spineChapter_def Let_def split: option.splits if_splits)

lemma manifest_foldl_ID:
  assumes "\<And>k item. m k = Some item \<Longrightarrow> ID item = k"
    and "foldl (\<lambda>m item. m(ID item \<mapsto> item)) m items k = Some item"
  shows "ID item = k"
  using assms
proof (induction items arbitrary: m)
  case Nil
  then show ?case by simp
next
  case (Cons a items)
  have "\<And>k item. (m(ID a \<mapsto> a)) k = Some item \<Longrightarrow> ID item = k"
  proof -
    fix k item
    assume "(m(ID a \<mapsto> a)) k = Some item"
    then show "ID item = k"
      using Cons.prems(1) [of k item] by (cases "k = ID a") simp_all
  qed
  moreover have "foldl (\<lambda>m item. m(ID item \<mapsto> item)) (m(ID a \<mapsto> a)) items k = Some item"
    using Cons.prems(2) by (simp only: foldl_Cons)
  ultimately show ?case by (rule Cons.IH)
qed

lemma manifestMap_ID: "manifestMap items k = Some item \<Longrightarrow> ID item = k"
  unfolding manifestMap_def by (rule manifest_foldl_ID [of Map.empty]) simp_all

lemma spineChapter_Title:
  "spineChapter U basePath files (manifestMap items) i r = Some c \<Longrightarrow> ChapterTitle c = IDRef r"
  by (auto simp: spineChapter_def Let_def dest: manifestMap_ID split: option.splits if_splits)

lemma orders_enumerate:
  "map Order (List.map_filter (\<lambda>(j, r). spineChapter U basePath files manifest j r) (enumerate i rs))
   = map fst (filter (\<lambda>(j, r). spineChapter U basePath files manifest j r \<noteq> None) (enumerate i rs))"
proof (induction rs arbitrary: i)
  case Nil
  show ?case by (simp add: List.map_filter_simps)
next
  case (Cons r rs)
  show ?case
    by (cases "spineChapter U basePath files manifest i r")
       (auto simp: Cons.IH List.map_filter_simps dest: spineChapter_Order)
qed

lemma orders_increasing:
  "sorted_wrt (<) (map Order (List.map_filter (\<lambda>(j, r). spineChapter U basePath files manifest j r)
      (enumerate i rs)))"
proof -
  have "sorted_wrt (<) (map fst (enumerate i rs))"
    by (simp add: strict_sorted_iff)
  then have "sorted_wrt (\<lambda>x y. fst x < fst y) (enumerate i rs)"
    by (simp only: sorted_wrt_map)
  then have "sorted_wrt (\<lambda>x y. fst x < fst y)
      (filter (\<lambda>(j, r). spineChapter U basePath files manifest j r \<noteq> None) (enumerate i rs))"
    by (rule sorted_wrt_filter)
  then have "sorted_wrt (<) (map fst
      (filter (\<lambda>(j, r). spineChapter U basePath files manifest j r \<noteq> None) (enumerate i rs)))"
    by (simp only: sorted_wrt_map)
  then show ?thesis by (simp only: orders_enumerate)
qed

lemma foldl_insertionStep:
  "sorted_wrt (\<lambda>a b. \<not> lt b a) (rev before @ xs) \<Longrightarrow>
   foldl (\<lambda>before x. insertionStep lt x before) before xs = rev xs @ before"
proof (induction xs arbitrary: before)
  case Nil
  show ?case by simp
next
  case (Cons x xs)
  have step: "insertionStep lt x before = x # before"
  proof (cases before)
    case Nil
    then show ?thesis by simp
  next
    case (Cons y ys)
    with Cons.prems have "\<not> lt x y" by (auto simp: sorted_wrt_append)
    with Cons show ?thesis by simp
  qed
  have "sorted_wrt (\<lambda>a b. \<not> lt b a) (rev (x # before) @ xs)"
    using Cons.prems by simp
  from Cons.IH [OF this] step show ?case by simp
qed

lemma sort_Slice_sorted:
  "sorted_wrt (\<lambda>a b. \<not> lt b a) xs \<Longrightarrow> sort_Slice lt xs = xs"
  using foldl_insertionStep [of lt "[]" xs] by (simp add: sort_Slice_def)

lemma sort_Slice_chapters:
  assumes "sorted_wrt (<) (map Order cs)"
  shows "sort_Slice (\<lambda>a b. Order a < Order b) cs = cs"
proof (rule sort_Slice_sorted)
  from assms have "sorted_wrt (\<lambda>a b. Order a < Order b) cs" by (simp add: sorted_wrt_map)
  then show "sorted_wrt (\<lambda>a b. \<not> Order b < Order a) cs"
    by (rule sorted_wrt_mono_rel [rotated]) auto
qed

lemma Chapters_buildBook:
  "Chapters (buildBook U files opfPath pkg) =
     List.map_filter
       (\<lambda>(j, r). spineChapter U (BasePath (buildBook U files opfPath pkg)) files
                   (manifestMap (Manifest pkg)) j r)
       (enumerate 0 (Spine pkg))"
  using sort_Slice_chapters [OF orders_increasing]
  by (simp add: buildBook_def Let_def chapterLoop_map_filter)

lemma CSS_buildBook:
  "CSS (buildBook U files opfPath pkg) =
     List.map_filter (styleSheet U (BasePath (buildBook U files opfPath pkg)) files) (Manifest pkg)"
  by (simp add: buildBook_def Let_def cssLoop_map_filter)

lemma length_map_filter_le: "length (List.map_filter f xs) \<le> length xs"
  by (induction xs) (auto simp: List.map_filter_simps split: option.splits)

lemma Parse_Inr:
  "Parse U xmlContainer xmlPackage archive = Inr book \<longleftrightarrow>
   (\<exists>files opfPath pkg. openPackage xmlContainer xmlPackage archive = Inr (files, opfPath, pkg)
        \<and> book = buildBook U files opfPath pkg)"
  by (auto simp: Parse_def split: sum.splits)

lemma orders_indices:
  "map fst (filter (\<lambda>(j, r). P j r) (enumerate 0 rs)) = filter (\<lambda>i. P i (rs ! i)) [0..<length rs]"
proof -
  have "enumerate 0 rs = zip [0..<length rs] (map ((!) rs) [0..<length rs])"
    by (simp add: enumerate_eq_zip map_nth)
  also have "\<dots> = map (\<lambda>i. (i, rs ! i)) [0..<length rs]"
    by (simp add: zip_map2 zip_same_conv_map)
  finally show ?thesis by (simp add: filter_map comp_def)
qed

lemma demoParse_eq: "demoParse = Inr demoBook"
  unfolding demoParse_def by code_simp

text \<open>
  C1. When \<open>Parse\<close> returns a book, the archive had a package document; the book has at
  most as many chapters as that document has spine entries, and the order values of
  adjacent chapters are strictly increasing.
\<close>

theorem Parse_chapters_bounded_increasing:
  assumes "Parse U xmlContainer xmlPackage archive = Inr book"
  shows "\<exists>files opfPath pkg.
           openPackage xmlContainer xmlPackage archive = Inr (files, opfPath, pkg)
           \<and> length (Chapters book) \<le> length (Spine pkg)
           \<and> (\<forall>i. Suc i < length (Chapters book) \<longrightarrow>
                  Order (Chapters book ! i) < Order (Chapters book ! Suc i))"
proof -
  from assms obtain files opfPath pkg
    where op: "openPackage xmlContainer xmlPackage archive = Inr (files, opfPath, pkg)"
      and book: "book = buildBook U files opfPath pkg"
    unfolding Parse_Inr by blast
  have len: "length (Chapters book) \<le> length (Spine pkg)"
    unfolding book Chapters_buildBook using length_map_filter_le [of _ "enumerate 0 (Spine pkg)"]
    by simp
  have "sorted_wrt (<) (map Order (Chapters book))"
    unfolding book by (subst Chapters_buildBook) (rule orders_increasing)
  then have "\<forall>i. Suc i < length (Chapters book) \<longrightarrow>
      Order (Chapters book ! i) < Order (Chapters book ! Suc i)"
    by (auto simp: sorted_wrt_iff_nth_less)
  with op len show ?thesis by blast
qed

text \<open>
  In the example archive five spine entries give two chapters, with the order values 1 and
  3; the entry of the package document ends with a checksum error and is decoded all the
  same.
\<close>

theorem Parse_chapters_bounded_increasing_witness:
  "Parse (\<lambda>s. s) (\<lambda>rc. Some demoContainer) (\<lambda>rc. Some demoPackage) (Some demoEntries)
     = Inr demoBook
   \<and> length (Chapters demoBook) = 2
   \<and> Order (Chapters demoBook ! 0) = 1 \<and> Order (Chapters demoBook ! Suc 0) = 3
   \<and> (\<exists>files opfPath pkg.
         openPackage (\<lambda>rc. Some demoContainer) (\<lambda>rc. Some demoPackage) (Some demoEntries)
           = Inr (files, opfPath, pkg)
         \<and> length (Chapters demoBook) \<le> length (Spine pkg)
         \<and> (\<forall>i. Suc i < length (Chapters demoBook) \<longrightarrow>
                Order (Chapters demoBook ! i) < Order (Chapters demoBook ! Suc i)))"
proof -
  have h: "Parse (\<lambda>s. s) (\<lambda>rc. Some demoContainer) (\<lambda>rc. Some demoPackage) (Some demoEntries)
      = Inr demoBook"
    using demoParse_eq by (simp add: demoParse_def)
  have "length (Chapters demoBook) = 2" "Order (Chapters demoBook ! 0) = 1"
    "Order (Chapters demoBook ! Suc 0) = 3"
    by (simp_all add: demoBook_def)
  with Parse_chapters_bounded_increasing [OF h] h show ?thesis by blast
qed

text \<open>
  C2 (as amended). The chapters of the book are what the entries of the spine contribute,
  in the order of the spine. The order value of a chapter is the index of its entry in the
  spine, and its label is the identifier that entry refers to; the order values of the book
  are exactly the indices of the spine entries that were not skipped, in increasing order.
  The style sheets are what the items of the manifest contribute, in the order of the
  manifest.
\<close>

theorem Parse_spine_and_manifest_order:
  assumes "Parse U xmlContainer xmlPackage archive = Inr book"
  shows "\<exists>files opfPath pkg.
           openPackage xmlContainer xmlPackage archive = Inr (files, opfPath, pkg)
           \<and> Chapters book =
               List.map_filter
                 (\<lambda>(i, r). spineChapter U (BasePath book) files (manifestMap (Manifest pkg)) i r)
                 (enumerate 0 (Spine pkg))
           \<and> (\<forall>c\<in>set (Chapters book).
                  Order c < length (Spine pkg) \<and> ChapterTitle c = IDRef (Spine pkg ! Order c))
           \<and> map Order (Chapters book) =
               filter (\<lambda>i. spineChapter U (BasePath book) files (manifestMap (Manifest pkg)) i
                             (Spine pkg ! i) \<noteq> None)
                 [0..<length (Spine pkg)]
           \<and> CSS book = List.map_filter (styleSheet U (BasePath book) files) (Manifest pkg)"
proof -
  from assms obtain files opfPath pkg
    where op: "openPackage xmlContainer xmlPackage archive = Inr (files, opfPath, pkg)"
      and book: "book = buildBook U files opfPath pkg"
    unfolding Parse_Inr by blast
  let ?f = "\<lambda>(i, r). spineChapter U (BasePath book) files (manifestMap (Manifest pkg)) i r"
  have ch: "Chapters book = List.map_filter ?f (enumerate 0 (Spine pkg))"
    unfolding book by (rule Chapters_buildBook)
  have css: "CSS book = List.map_filter (styleSheet U (BasePath book) files) (Manifest pkg)"
    unfolding book by (rule CSS_buildBook)
  have "Order c < length (Spine pkg) \<and> ChapterTitle c = IDRef (Spine pkg ! Order c)"
    if "c \<in> set (Chapters book)" for c
  proof -
    from that ch obtain x where x: "x \<in> set (enumerate 0 (Spine pkg))" and fx: "?f x = Some c"
      by (auto simp: List.map_filter_def)
    obtain j r where jr: "x = (j, r)" by (cases x)
    with x have j: "j < length (Spine pkg)" and r: "r = Spine pkg ! j"
      by (auto simp: in_set_enumerate_eq)
    from fx jr have "Order c = j" and "ChapterTitle c = IDRef r"
      by (auto dest: spineChapter_Order spineChapter_Title)
    with j r show ?thesis by simp
  qed
  moreover have "map Order (Chapters book) =
      filter (\<lambda>i. spineChapter U (BasePath book) files (manifestMap (Manifest pkg)) i
                    (Spine pkg ! i) \<noteq> None)
        [0..<length (Spine pkg)]"
    unfolding ch orders_enumerate by (rule orders_indices)
  ultimately show ?thesis using op ch css by blast
qed

text \<open>
  In the example archive the chapters come from the spine entries 1 and 3, in this order,
  and the two style sheets are in the order of the manifest, where a chapter and the image
  stand between them.
\<close>

theorem Parse_spine_and_manifest_order_witness:
  "Parse (\<lambda>s. s) (\<lambda>rc. Some demoContainer) (\<lambda>rc. Some demoPackage) (Some demoEntries)
     = Inr demoBook
   \<and> map Order (Chapters demoBook) = [1, 3]
   \<and> map ChapterTitle (Chapters demoBook) = [''ch1'', ''ch2'']
   \<and> CSS demoBook = [''p{}'', ''h1{}'']
   \<and> (\<exists>files opfPath pkg.
         openPackage (\<lambda>rc. Some demoContainer) (\<lambda>rc. Some demoPackage) (Some demoEntries)
           = Inr (files, opfPath, pkg)
         \<and> Chapters demoBook =
             List.map_filter
               (\<lambda>(i, r). spineChapter (\<lambda>s. s) (BasePath demoBook) files (manifestMap (Manifest pkg)) i r)
               (enumerate 0 (Spine pkg))
         \<and> (\<forall>c\<in>set (Chapters demoBook).
                Order c < length (Spine pkg) \<and> ChapterTitle c = IDRef (Spine pkg ! Order c))
         \<and> map Order (Chapters demoBook) =
             filter (\<lambda>i. spineChapter (\<lambda>s. s) (BasePath demoBook) files (manifestMap (Manifest pkg)) i
                           (Spine pkg ! i) \<noteq> None)
               [0..<length (Spine pkg)]
         \<and> CSS demoBook = List.map_filter (styleSheet (\<lambda>s. s) (BasePath demoBook) files) (Manifest pkg))"
proof -
  have h: "Parse (\<lambda>s. s) (\<lambda>rc. Some demoContainer) (\<lambda>rc. Some demoPackage) (Some demoEntries)
      = Inr demoBook"
    using demoParse_eq by (simp add: demoParse_def)
  have "map Order (Chapters demoBook) = [1, 3]"
    "map ChapterTitle (Chapters demoBook) = [''ch1'', ''ch2'']"
    "CSS demoBook = [''p{}'', ''h1{}'']"
    by (simp_all add: demoBook_def)
  with Parse_spine_and_manifest_order [OF h] h show ?thesis by blast
qed

text \<open>
  The claim as stated asks for order values without gaps. In the example archive the first
  and the third spine entry are skipped; the first chapter of the book has the order value
  1, not 0, and the second one has 3.
\<close>

theorem Parse_order_gap:
  "Parse (\<lambda>s. s) (\<lambda>rc. Some demoContainer) (\<lambda>rc. Some demoPackage) (Some demoEntries)
     = Inr demoBook
   \<and> length (Chapters demoBook) = 2
   \<and> Order (Chapters demoBook ! 0) = 1 \<and> Order (Chapters demoBook ! Suc 0) = 3"
  using demoParse_eq by (simp add: demoParse_def demoBook_def)

subsection \<open>Base64 round trip\<close>

lemma of_char_int_bounds: "0 \<le> (of_char c :: int) \<and> (of_char c :: int) < 256"
proof -
  have "(of_char c :: int) mod 256 = of_char c" by (rule of_char_mod_256)
  moreover have "0 \<le> (of_char c :: int) mod 256" by (rule pos_mod_sign) simp
  moreover have "(of_char c :: int) mod 256 < 256" by (rule pos_mod_bound) simp
  ultimately show ?thesis by simp
qed

lemma char_of_byte: "char_of ((of_char c :: int) + 256 * k) = c"
proof -
  have "char_of ((of_char c :: int) + 256 * k) = char_of (((of_char c :: int) + 256 * k) mod 256)"
    by (simp only: char_of_mod_256)
  also have "((of_char c :: int) + 256 * k) mod 256 = of_char c"
    by simp
  finally show ?thesis by simp
qed

lemma distinct_encodeStd: "distinct encodeStd"
  by (simp add: encodeStd_def)

lemma length_encodeStd: "length encodeStd = 64"
  by (simp add: encodeStd_def)

lemma pad_not_encodeStd: "CHR ''='' \<notin> set encodeStd"
  by (simp add: encodeStd_def)

lemma decodeStd_encodeStd:
  assumes "0 \<le> i" and "i < 64"
  shows "decodeStd (encodeStd ! nat i) = Some i" and "encodeStd ! nat i \<noteq> CHR ''=''"
proof -
  have n: "nat i < 64" using assms by simp
  have "map_of (zip encodeStd [0..63]) (encodeStd ! nat i) = Some ([0..63] ! nat i)"
    by (rule map_of_zip_nth) (use n in \<open>simp_all add: length_encodeStd distinct_encodeStd\<close>)
  moreover have "[0..63] ! nat i = 0 + int (nat i)"
    by (rule nth_upto) (use assms in simp)
  ultimately show "decodeStd (encodeStd ! nat i) = Some i"
    using assms by (simp add: decodeStd_def)
  have "encodeStd ! nat i \<in> set encodeStd"
    using n by (simp add: length_encodeStd)
  with pad_not_encodeStd show "encodeStd ! nat i \<noteq> CHR ''=''" by auto
qed

lemma sextets:
  fixes v :: int
  assumes v: "0 \<le> v" "v < 16777216"
  shows "v div 262144 mod 64 * 64 + v div 4096 mod 64 = v div 4096"
    and "(v div 262144 mod 64 * 64 + v div 4096 mod 64) * 64 + v div 64 mod 64 = v div 64"
    and "((v div 262144 mod 64 * 64 + v div 4096 mod 64) * 64 + v div 64 mod 64) * 64 + v mod 64 = v"
proof -
  define q1 where "q1 = v div 64"
  define q2 where "q2 = v div 4096"
  define q3 where "q3 = v div 262144"
  have q21: "q2 = q1 div 64"
    unfolding q1_def q2_def using zdiv_zmult2_eq [of 64 v 64] by simp
  have q32: "q3 = q2 div 64"
    unfolding q2_def q3_def using zdiv_zmult2_eq [of 64 v 4096] by simp
  have "0 \<le> q3" unfolding q3_def using v by simp
  moreover have "q3 < 64" unfolding q3_def using v by simp
  ultimately have q3: "q3 mod 64 = q3" by simp
  have e3: "q3 * 64 + q2 mod 64 = q2"
    unfolding q32 by simp
  have e2: "q2 * 64 + q1 mod 64 = q1"
    unfolding q21 by simp
  have e1: "q1 * 64 + v mod 64 = v"
    unfolding q1_def by simp
  have a: "q3 mod 64 * 64 + q2 mod 64 = q2"
    using q3 e3 by simp
  have b: "(q3 mod 64 * 64 + q2 mod 64) * 64 + q1 mod 64 = q1"
    using e2 by (simp only: a)
  have c: "((q3 mod 64 * 64 + q2 mod 64) * 64 + q1 mod 64) * 64 + v mod 64 = v"
    using e1 by (simp only: b)
  show "v div 262144 mod 64 * 64 + v div 4096 mod 64 = v div 4096"
    using a unfolding q3_def q2_def .
  show "(v div 262144 mod 64 * 64 + v div 4096 mod 64) * 64 + v div 64 mod 64 = v div 64"
    using b unfolding q3_def q2_def q1_def .
  show "((v div 262144 mod 64 * 64 + v div 4096 mod 64) * 64 + v div 64 mod 64) * 64 + v mod 64 = v"
    using c unfolding q3_def q2_def q1_def .
qed

lemma three_bytes:
  fixes a b c :: int
  assumes "0 \<le> a" "a < 256" "0 \<le> b" "b < 256" "0 \<le> c" "c < 256"
  shows "0 \<le> a * 65536 + b * 256 + c" "a * 65536 + b * 256 + c < 16777216"
    "(a * 65536 + b * 256 + c) div 65536 = a"
    "(a * 65536 + b * 256 + c) div 256 = b + 256 * a"
  using assms by linarith+

lemma div_div_64:
  fixes v :: int
  shows "v div 4096 div 16 = v div 65536" "v div 64 div 1024 = v div 65536" "v div 64 div 4 = v div 256"
  using zdiv_zmult2_eq [of 16 v 4096] zdiv_zmult2_eq [of 1024 v 64] zdiv_zmult2_eq [of 4 v 64]
  by simp_all


lemma base64_roundtrip: "base64_decode (base64_EncodeToString bytes) = Some bytes"
proof (induction bytes rule: base64_EncodeToString.induct)
  case 1
  show ?case by simp
next
  case (2 a)
  define v where "v = (of_char a :: int) * 65536"
  define d1 where "d1 = v div 262144 mod 64"
  define d2 where "d2 = v div 4096 mod 64"
  have v: "0 \<le> v" "v < 16777216" "v div 65536 = of_char a"
    unfolding v_def using three_bytes [of "of_char a" 0 0] of_char_int_bounds [of a] by simp_all
  have "(d1 * 64 + d2) div 16 = of_char a"
    unfolding d1_def d2_def by (simp only: sextets(1) [OF v(1,2)] div_div_64(1) v(3))
  then have "char_of ((d1 * 64 + d2) div 16) = a" by simp
  moreover have "decodeStd (encodeStd ! nat d1) = Some d1" "decodeStd (encodeStd ! nat d2) = Some d2"
    unfolding d1_def d2_def by (simp_all add: decodeStd_encodeStd)
  moreover have "base64_EncodeToString [a] = [encodeStd ! nat d1, encodeStd ! nat d2, CHR ''='', CHR ''='']"
    by (simp add: Let_def v_def d1_def d2_def)
  ultimately show ?case by simp
next
  case (3 a b)
  define v where "v = (of_char a :: int) * 65536 + (of_char b :: int) * 256"
  define d1 where "d1 = v div 262144 mod 64"
  define d2 where "d2 = v div 4096 mod 64"
  define d3 where "d3 = v div 64 mod 64"
  have v: "0 \<le> v" "v < 16777216" "v div 65536 = of_char a" "v div 256 = of_char b + 256 * of_char a"
    unfolding v_def
    using three_bytes [of "of_char a" "of_char b" 0] of_char_int_bounds [of a] of_char_int_bounds [of b]
    by simp_all
  have n: "(d1 * 64 + d2) * 64 + d3 = v div 64"
    unfolding d1_def d2_def d3_def by (rule sextets(2) [OF v(1,2)])
  have c1: "char_of (((d1 * 64 + d2) * 64 + d3) div 1024) = a"
    unfolding n div_div_64 v(3) by simp
  have c2: "char_of (((d1 * 64 + d2) * 64 + d3) div 4) = b"
    unfolding n div_div_64 v(4) by (rule char_of_byte)
  have dec: "decodeStd (encodeStd ! nat d1) = Some d1" "decodeStd (encodeStd ! nat d2) = Some d2"
    "decodeStd (encodeStd ! nat d3) = Some d3" "encodeStd ! nat d3 \<noteq> CHR ''=''"
    unfolding d1_def d2_def d3_def by (simp_all add: decodeStd_encodeStd)
  have "base64_EncodeToString [a, b] =
      [encodeStd ! nat d1, encodeStd ! nat d2, encodeStd ! nat d3, CHR ''='']"
    by (simp add: Let_def v_def d1_def d2_def d3_def)
  with c1 c2 dec show ?case by simp
next
  case (4 a b c rest)
  define v where "v = (of_char a :: int) * 65536 + (of_char b :: int) * 256 + (of_char c :: int)"
  define d1 where "d1 = v div 262144 mod 64"
  define d2 where "d2 = v div 4096 mod 64"
  define d3 where "d3 = v div 64 mod 64"
  define d4 where "d4 = v mod 64"
  have v: "0 \<le> v" "v < 16777216" "v div 65536 = of_char a" "v div 256 = of_char b + 256 * of_char a"
    unfolding v_def
    using three_bytes [of "of_char a" "of_char b" "of_char c"]
      of_char_int_bounds [of a] of_char_int_bounds [of b] of_char_int_bounds [of c]
    by simp_all
  have n: "((d1 * 64 + d2) * 64 + d3) * 64 + d4 = v"
    unfolding d1_def d2_def d3_def d4_def by (rule sextets(3) [OF v(1,2)])
  have c1: "char_of ((((d1 * 64 + d2) * 64 + d3) * 64 + d4) div 65536) = a"
    unfolding n v(3) by simp
  have c2: "char_of ((((d1 * 64 + d2) * 64 + d3) * 64 + d4) div 256) = b"
    unfolding n v(4) by (rule char_of_byte)
  have "v = of_char c + 256 * (of_char a * 256 + of_char b)" unfolding v_def by simp
  then have "char_of v = c" by (simp only: char_of_byte)
  then have c3: "char_of (((d1 * 64 + d2) * 64 + d3) * 64 + d4) = c"
    unfolding n .
  have dec: "decodeStd (encodeStd ! nat d1) = Some d1" "decodeStd (encodeStd ! nat d2) = Some d2"
    "decodeStd (encodeStd ! nat d3) = Some d3" "encodeStd ! nat d3 \<noteq> CHR ''=''"
    "decodeStd (encodeStd ! nat d4) = Some d4" "encodeStd ! nat d4 \<noteq> CHR ''=''"
    unfolding d1_def d2_def d3_def d4_def by (simp_all add: decodeStd_encodeStd)
  have "base64_EncodeToString (a # b # c # rest) =
      [encodeStd ! nat d1, encodeStd ! nat d2, encodeStd ! nat d3, encodeStd ! nat d4]
      @ base64_EncodeToString rest"
    by (simp add: Let_def v_def d1_def d2_def d3_def d4_def)
  with c1 c2 c3 dec "4.IH" show ?case by simp
qed



subsection \<open>The rewriter\<close>

lemma hasMatch_iff: "hasMatch re s \<longleftrightarrow> (\<exists>i. matchHere re (drop i s) 0 \<noteq> None)"
proof
  assume "hasMatch re s"
  then show "\<exists>i. matchHere re (drop i s) 0 \<noteq> None"
    unfolding hasMatch_def list_ex_iff by blast
next
  assume "\<exists>i. matchHere re (drop i s) 0 \<noteq> None"
  then obtain i where i: "matchHere re (drop i s) 0 \<noteq> None" by blast
  have "drop (min i (length s)) s = drop i s"
    by (cases "i \<le> length s") (simp_all add: min_def)
  with i have "matchHere re (drop (min i (length s)) s) 0 \<noteq> None" by simp
  moreover have "min i (length s) \<in> set [0..<Suc (length s)]" by auto
  ultimately show "hasMatch re s" unfolding hasMatch_def list_ex_iff by blast
qed

lemma re_find_no_match: "\<not> hasMatch re s \<Longrightarrow> re_find re s pos = None"
proof (induction re s pos rule: re_find.induct)
  case (1 re s pos)
  from "1.prems" have all: "\<And>i. matchHere re (drop i s) 0 = None"
    unfolding hasMatch_iff by blast
  from all [of 0] have here: "matchHere re s 0 = None" by simp
  show ?case
  proof (cases "s = []")
    case True
    with here show ?thesis by (subst re_find.simps) simp
  next
    case False
    have "\<not> hasMatch re (drop (utf8_width s) s)"
      unfolding hasMatch_iff drop_drop by (simp add: all)
    with "1.IH" [OF here False] here False show ?thesis
      by (subst re_find.simps) simp
  qed
qed

lemma ReplaceAllStringFunc_no_match:
  "\<not> hasMatch re src \<Longrightarrow> ReplaceAllStringFunc re src repl = src"
  unfolding ReplaceAllStringFunc_def
  by (subst replaceAll_loop.simps) (simp add: re_find_no_match)

text \<open>
  C8. A text in which none of the three patterns (image-tag source attributes, \<open>xlink:href\<close>
  attributes, \<open>url(...)\<close> functions) matches at any offset is returned by the rewriter
  unchanged, byte for byte.
\<close>

theorem embedImages_without_reference:
  assumes "\<not> hasMatch imgSrcRegex content" and "\<not> hasMatch xlinkRegex content"
    and "\<not> hasMatch urlRegex content"
  shows "embedImages U content basePath files = content"
  using assms by (simp add: embedImages_def ReplaceAllStringFunc_no_match)

theorem embedImages_without_reference_witness:
  "\<not> hasMatch imgSrcRegex ''<p>No <b>image</b> here</p>''
   \<and> \<not> hasMatch xlinkRegex ''<p>No <b>image</b> here</p>''
   \<and> \<not> hasMatch urlRegex ''<p>No <b>image</b> here</p>''
   \<and> embedImages (\<lambda>s. s) ''<p>No <b>image</b> here</p>'' ''OEBPS/text'' (fileMap demoEntries)
       = ''<p>No <b>image</b> here</p>''"
proof -
  have a: "\<not> hasMatch imgSrcRegex ''<p>No <b>image</b> here</p>''" by code_simp
  have b: "\<not> hasMatch xlinkRegex ''<p>No <b>image</b> here</p>''" by code_simp
  have c: "\<not> hasMatch urlRegex ''<p>No <b>image</b> here</p>''" by code_simp
  from a b c embedImages_without_reference [OF a b c] show ?thesis by blast
qed















subsection \<open>References that the inliner skips\<close>






subsection \<open>The lookups of the inliner\<close>






subsection \<open>The payload of the inliner\<close>

lemma isImageFile_getMimeType: "isImageFile U src \<longleftrightarrow> getMimeType U src \<noteq> []"
  by (auto simp: isImageFile_def getMimeType_def Let_def)

text \<open>
  C7. For a reference that is not skipped, whose lookup finds an entry with readable bytes
  and whose cleaned name has a known image extension, the inliner returns
  \<open>data:<mediaType>;base64,<encoded>\<close>, and decoding the base64 part gives the bytes of
  the entry back.
\<close>

theorem inlined_payload_roundtrip:
  assumes "\<not> skipped src"
    and "findFile files (resolveRelativePath basePath (cleanSrc src)) (cleanSrc src) = Some zipFile"
    and "readBinaryContent zipFile = Some bytes"
    and "getMimeType U (cleanSrc src) = mediaType" and "mediaType \<noteq> []"
  shows "\<exists>encoded.
           resolveAndEmbed U src basePath files = ''data:'' @ mediaType @ '';base64,'' @ encoded
           \<and> base64_decode encoded = Some bytes"
proof -
  have "resolveAndEmbed U src basePath files =
        ''data:'' @ mediaType @ '';base64,'' @ base64_EncodeToString bytes"
    using assms by (simp add: resolveAndEmbed_def dataURI_def Let_def)
  with base64_roundtrip [of bytes] show ?thesis by blast
qed

theorem inlined_payload_roundtrip_witness:
  "\<not> skipped ''../images/a.png''
   \<and> findFile (fileMap demoEntries) (resolveRelativePath ''OEBPS/text'' (cleanSrc ''../images/a.png''))
         (cleanSrc ''../images/a.png'') = Some \<lparr>Name = ''OEBPS/images/a.png'', Open = Some (Reader pngBytes False)\<rparr>
   \<and> getMimeType (\<lambda>s. s) (cleanSrc ''../images/a.png'') = ''image/png''
   \<and> (\<exists>encoded.
         resolveAndEmbed (\<lambda>s. s) ''../images/a.png'' ''OEBPS/text'' (fileMap demoEntries)
           = ''data:'' @ ''image/png'' @ '';base64,'' @ encoded
         \<and> base64_decode encoded = Some pngBytes)"
proof -
  have a: "\<not> skipped ''../images/a.png''" by code_simp
  have b: "findFile (fileMap demoEntries)
      (resolveRelativePath ''OEBPS/text'' (cleanSrc ''../images/a.png'')) (cleanSrc ''../images/a.png'')
      = Some \<lparr>Name = ''OEBPS/images/a.png'', Open = Some (Reader pngBytes False)\<rparr>" by code_simp
  have c: "readBinaryContent \<lparr>Name = ''OEBPS/images/a.png'', Open = Some (Reader pngBytes False)\<rparr> = Some pngBytes"
    by (simp add: readBinaryContent_def io_ReadAll_def)
  have d: "getMimeType (\<lambda>s. s) (cleanSrc ''../images/a.png'') = ''image/png''" by code_simp
  have e: "''image/png'' \<noteq> []" by simp
  from inlined_payload_roundtrip [where U = "\<lambda>s. s" and files = "fileMap demoEntries"
      and basePath = "''OEBPS/text''" and src = "''../images/a.png''", OF a b c d e] a b d
  show ?thesis by blast
qed

subsection \<open>Percent-decoding of a reference\<close>

text \<open>
  When the reference cannot be percent-decoded, the undecoded reference is used.
\<close>

lemma cleanSrc_fallback:
  "url_QueryUnescape (stripFragment src) = None \<Longrightarrow> cleanSrc src = stripFragment src"
  by (simp add: cleanSrc_def)

text \<open>
  C5. The decoding is \<open>url.QueryUnescape\<close>, which also turns every plus sign into a space.
  An entry \<open>a+b.png\<close> that lies exactly where the reference \<open>a+b.png\<close> points is therefore
  looked up as \<open>a b.png\<close>, is not found, and the image tag stays as it was.
\<close>

theorem plus_sign_reference_lost:
  "fileMap plusEntries (resolveRelativePath ''.'' ''a+b.png'') = Some \<lparr>Name = ''a+b.png'', Open = Some (Reader pngBytes False)\<rparr>
   \<and> cleanSrc ''a+b.png'' = ''a b.png''
   \<and> resolveAndEmbed U ''a+b.png'' ''.'' (fileMap plusEntries) = []
   \<and> embedImages U (demoTag ''a+b.png'') ''.'' (fileMap plusEntries) = demoTag ''a+b.png''"
  by code_simp

subsection \<open>Body extraction\<close>

text \<open>
  C10. Body extraction is not total. For the chapter text \<open></body><body>\<close> the end of the
  opening tag is at offset 13 and the last closing marker at offset 0; the slice
  \<open>html[13:0]\<close> panics, and so does \<open>ToHTML\<close> on a book with this chapter.
\<close>

theorem extractBodyContent_panics:
  "extractBodyContent U ''</body><body>'' = Inl SliceBoundsOutOfRange
   \<and> ToHTML U panicBook = Inl SliceBoundsOutOfRange"
  by code_simp

end
